theory Spec2Isabelle
  imports Main "HOL-Library.AList"
begin

section \<open>Values of the extraction record\<close>

text \<open>
  \<^verbatim>\<open>json.loads\<close> yields \<^verbatim>\<open>None\<close>, booleans, numbers, strings, lists and dicts.
  A dict is an association list read through \<open>map_of\<close>; its items are
  \<open>AList.clearjunk\<close> of the list, so that a key occurs once, as in a Python dict.
  Numbers are integers: a number with a fraction is a float and is not modelled.
\<close>

datatype json =
    JNull
  | JBool bool
  | JInt int
  | JStr string
  | JArr "json list"
  | JObj "(string \<times> json) list"

text \<open>The exceptions (all subclasses of \<^verbatim>\<open>Exception\<close>) that the program can meet.\<close>

datatype py_error =
    AttributeError
  | TypeError
  | KeyError
  | IndexError
  | ValueError
  | ClientError
  | AuthError
  | PackageNotFoundError
  | RateLimitError
  | APIError

text \<open>Truth value testing: \<^verbatim>\<open>if x:\<close> and \<^verbatim>\<open>if not x:\<close>.\<close>

fun truthy :: "json \<Rightarrow> bool" where
  "truthy JNull = False"
| "truthy (JBool b) = b"
| "truthy (JInt i) = (i \<noteq> 0)"
| "truthy (JStr s) = (s \<noteq> [])"
| "truthy (JArr xs) = (xs \<noteq> [])"
| "truthy (JObj kvs) = (kvs \<noteq> [])"

text \<open>\<^verbatim>\<open>x.get(k, d)\<close>: only a dict has the method.\<close>

fun py_get :: "json \<Rightarrow> string \<Rightarrow> json \<Rightarrow> py_error + json" where
  "py_get (JObj kvs) k d = Inr (case map_of kvs k of None \<Rightarrow> d | Some v \<Rightarrow> v)"
| "py_get _ k d = Inl AttributeError"

text \<open>\<^verbatim>\<open>x.items()\<close>.\<close>

fun py_items :: "json \<Rightarrow> py_error + (string \<times> json) list" where
  "py_items (JObj kvs) = Inr (AList.clearjunk kvs)"
| "py_items _ = Inl AttributeError"

text \<open>
  Iteration (\<^verbatim>\<open>for x in xs\<close>, \<^verbatim>\<open>enumerate(xs)\<close>): a list gives its elements, a
  string its characters, a dict its keys; nothing else is iterable.
\<close>

fun py_iter :: "json \<Rightarrow> py_error + json list" where
  "py_iter (JArr xs) = Inr xs"
| "py_iter (JStr s) = Inr (map (\<lambda>c. JStr [c]) s)"
| "py_iter (JObj kvs) = Inr (map (\<lambda>kv. JStr (fst kv)) (AList.clearjunk kvs))"
| "py_iter _ = Inl TypeError"

text \<open>\<^verbatim>\<open>x[0]\<close>.\<close>

fun py_first :: "json \<Rightarrow> py_error + json" where
  "py_first (JArr []) = Inl IndexError"
| "py_first (JArr (x # xs)) = Inr x"
| "py_first (JStr []) = Inl IndexError"
| "py_first (JStr (c # cs)) = Inr (JStr [c])"
| "py_first (JObj kvs) = Inl KeyError"
| "py_first _ = Inl TypeError"

subsection \<open>Formatting\<close>

definition digit :: "nat \<Rightarrow> char" where
  "digit d = char_of (d + 48)"

fun dec_nat :: "nat \<Rightarrow> string" where
  "dec_nat n = (if n < 10 then [digit n] else dec_nat (n div 10) @ [digit (n mod 10)])"

declare dec_nat.simps [simp del]

definition dec_int :: "int \<Rightarrow> string" where
  "dec_int i = (if i < 0 then CHR ''-'' # dec_nat (nat (- i)) else dec_nat (nat i))"

text \<open>
  \<^verbatim>\<open>str(x)\<close>, as an f-string applies it. The text of a list or of a dict is made of
  the \<^verbatim>\<open>repr\<close> of its members; it is the parameter \<open>r\<close>.
\<close>

fun py_str :: "(json \<Rightarrow> string) \<Rightarrow> json \<Rightarrow> string" where
  "py_str r JNull = ''None''"
| "py_str r (JBool b) = (if b then ''True'' else ''False'')"
| "py_str r (JInt i) = dec_int i"
| "py_str r (JStr s) = s"
| "py_str r v = r v"

section \<open>The graph store\<close>

text \<open>
  The store is the external property graph that the Cypher statements of
  \<^verbatim>\<open>build_graph_from_entities\<close> act on. A node has one label and its properties; a
  node is known by its position in \<open>nodes\<close> (nodes are never deleted). A relationship
  is (start, type, end). \<open>unique_on\<close> holds the uniqueness constraints in force, and
  \<open>auth_ok\<close> tells whether the store accepts the driver's credentials.
\<close>

datatype node = Node (label: string) (props: "(string \<times> json) list")

record graph =
  nodes :: "node list"
  rels :: "(nat \<times> string \<times> nat) list"
  unique_on :: "(string \<times> string) list"
  auth_ok :: bool

definition empty_graph :: graph where
  "empty_graph = \<lparr>nodes = [], rels = [], unique_on = [], auth_ok = True\<rparr>"

text \<open>A property holds a boolean, a number, a string, or a list of one of these kinds.\<close>

fun is_bool :: "json \<Rightarrow> bool" where
  "is_bool (JBool b) = True"
| "is_bool _ = False"

fun is_int :: "json \<Rightarrow> bool" where
  "is_int (JInt i) = True"
| "is_int _ = False"

fun is_str :: "json \<Rightarrow> bool" where
  "is_str (JStr s) = True"
| "is_str _ = False"

fun storable :: "json \<Rightarrow> bool" where
  "storable (JBool b) = True"
| "storable (JInt i) = True"
| "storable (JStr s) = True"
| "storable (JArr xs) = (list_all is_bool xs \<or> list_all is_int xs \<or> list_all is_str xs)"
| "storable _ = False"

text \<open>The pattern \<^verbatim>\<open>(x:L {k: $v})\<close>: a null never equals anything.\<close>

definition has_key :: "string \<Rightarrow> string \<Rightarrow> json \<Rightarrow> node \<Rightarrow> bool" where
  "has_key l k v n \<longleftrightarrow> label n = l \<and> v \<noteq> JNull \<and> map_of (props n) k = Some v"

definition match_nodes :: "string \<Rightarrow> string \<Rightarrow> json \<Rightarrow> graph \<Rightarrow> nat list" where
  "match_nodes l k v g = filter (\<lambda>i. has_key l k v (nodes g ! i)) [0..<length (nodes g)]"

text \<open>
  \<^verbatim>\<open>MERGE (x:L {k: $v})\<close>: the nodes that match, or else one new node. Merging on a
  null, or on a value that no property can hold, is an error.
\<close>

definition merge_node :: "string \<Rightarrow> string \<Rightarrow> json \<Rightarrow> graph \<Rightarrow> py_error + (graph \<times> nat list)" where
  "merge_node l k v g =
     (if v = JNull \<or> \<not> storable v then Inl ClientError
      else case match_nodes l k v g of
          [] \<Rightarrow> Inr (g\<lparr>nodes := nodes g @ [Node l [(k, v)]]\<rparr>, [length (nodes g)])
        | i # is \<Rightarrow> Inr (g, i # is))"

text \<open>\<^verbatim>\<open>SET x += $props\<close>: a null removes the property, any other value overwrites it.\<close>

definition put :: "string \<times> json \<Rightarrow> (string \<times> json) list \<Rightarrow> (string \<times> json) list" where
  "put kv ps = (if snd kv = JNull then AList.delete (fst kv) ps else AList.update (fst kv) (snd kv) ps)"

definition violates :: "graph \<Rightarrow> nat \<Rightarrow> bool" where
  "violates g i \<longleftrightarrow>
     list_ex (\<lambda>lk. fst lk = label (nodes g ! i) \<and>
        (case map_of (props (nodes g ! i)) (snd lk) of
           None \<Rightarrow> False
         | Some v \<Rightarrow> list_ex (\<lambda>j. j \<noteq> i \<and> has_key (fst lk) (snd lk) v (nodes g ! j))
                       [0..<length (nodes g)]))
       (unique_on g)"

fun set_props :: "nat \<Rightarrow> json \<Rightarrow> graph \<Rightarrow> py_error + graph" where
  "set_props i (JObj kvs) g =
     (if list_all (\<lambda>kv. snd kv = JNull \<or> storable (snd kv)) (AList.clearjunk kvs) then
        (let n = nodes g ! i;
             g' = g\<lparr>nodes := (nodes g)[i := Node (label n) (fold put (AList.clearjunk kvs) (props n))]\<rparr>
         in if violates g' i then Inl ClientError else Inr g')
      else Inl ClientError)"
| "set_props i _ g = Inl ClientError"

text \<open>\<^verbatim>\<open>MERGE (a)-[:T]->(b)\<close>.\<close>

definition merge_rel :: "nat \<Rightarrow> string \<Rightarrow> nat \<Rightarrow> graph \<Rightarrow> graph" where
  "merge_rel a t b g = (if (a, t, b) \<in> set (rels g) then g else g\<lparr>rels := rels g @ [(a, t, b)]\<rparr>)"

text \<open>A statement runs over its rows in order and stops at the first error.\<close>

fun each_row :: "('a \<Rightarrow> graph \<Rightarrow> py_error + graph) \<Rightarrow> 'a list \<Rightarrow> graph \<Rightarrow> py_error + graph" where
  "each_row f [] g = Inr g"
| "each_row f (x # xs) g = (case f x g of Inl e \<Rightarrow> Inl e | Inr g' \<Rightarrow> each_row f xs g')"

text \<open>
  The tail shared by the statements that hang a node on a client:
  \<^verbatim>\<open>MERGE (x:L {id: $id}) SET x += ... MERGE (c)-[:T]->(x)\<close>, for each client row \<open>c\<close>.
\<close>

definition upsert_linked ::
  "nat list \<Rightarrow> string \<Rightarrow> json \<Rightarrow> json list \<Rightarrow> string \<Rightarrow> graph \<Rightarrow> py_error + graph" where
  "upsert_linked cs l v ms t g =
     each_row (\<lambda>c g1.
        case merge_node l ''id'' v g1 of
          Inl e \<Rightarrow> Inl e
        | Inr (g2, xs) \<Rightarrow>
            each_row (\<lambda>x g3.
               case each_row (set_props x) ms g3 of
                 Inl e \<Rightarrow> Inl e
               | Inr g4 \<Rightarrow> Inr (merge_rel c t x g4)) xs g2) cs g"

text \<open>The eight statements of \<^verbatim>\<open>build_graph_from_entities\<close>.\<close>

definition merge_adviser :: "json \<Rightarrow> graph \<Rightarrow> py_error + graph" where
  "merge_adviser name g = map_sum id fst (merge_node ''Adviser'' ''name'' name g)"

definition upsert_client :: "json \<Rightarrow> json \<Rightarrow> graph \<Rightarrow> py_error + graph" where
  "upsert_client name ps g =
     (case merge_node ''Client'' ''name'' name g of
        Inl e \<Rightarrow> Inl e
      | Inr (g1, cs) \<Rightarrow> each_row (\<lambda>c. set_props c ps) cs g1)"

definition link_adviser :: "json \<Rightarrow> json \<Rightarrow> graph \<Rightarrow> py_error + graph" where
  "link_adviser c_name a_name g =
     Inr (fold (\<lambda>c. fold (\<lambda>a. merge_rel a ''ADVISES'' c) (match_nodes ''Adviser'' ''name'' a_name g))
            (match_nodes ''Client'' ''name'' c_name g) g)"

definition upsert_dependant :: "json \<Rightarrow> json \<Rightarrow> json \<Rightarrow> graph \<Rightarrow> py_error + graph" where
  "upsert_dependant p_name ident ps g =
     upsert_linked (match_nodes ''Client'' ''name'' p_name g) ''Dependant'' ident [ps] ''PARENT_OF'' g"

definition upsert_property :: "json \<Rightarrow> json \<Rightarrow> json \<Rightarrow> graph \<Rightarrow> py_error + graph" where
  "upsert_property c_name ident ps g =
     upsert_linked (match_nodes ''Client'' ''name'' c_name g) ''Property'' ident [ps] ''OWNS'' g"

definition upsert_account :: "string \<Rightarrow> json \<Rightarrow> json \<Rightarrow> json \<Rightarrow> graph \<Rightarrow> py_error + graph" where
  "upsert_account l owner ident ps g =
     (case merge_node ''Client'' ''name'' owner g of
        Inl e \<Rightarrow> Inl e
      | Inr (g1, cs) \<Rightarrow> upsert_linked cs l ident [ps] ''HAS_ACCOUNT'' g1)"

definition upsert_goal :: "json \<Rightarrow> json \<Rightarrow> json \<Rightarrow> graph \<Rightarrow> py_error + graph" where
  "upsert_goal name ident ps g =
     upsert_linked (match_nodes ''Client'' ''name'' name g) ''Goal'' ident
       [JObj [(''type'', JStr ''Retirement'')], ps] ''HAS_GOAL'' g"

section \<open>The graph upsert: \<^verbatim>\<open>build_graph_from_entities\<close>\<close>

text \<open>
  The function never reads what \<^verbatim>\<open>session.run\<close> returns, so what it sends depends on
  the record and the document name alone. It is modelled in two parts: the statements the
  body sends, in order, up to the exception that the Python code itself raises, if any;
  and the store running them.
\<close>

datatype statement =
    MergeAdviser json
  | UpsertClient json json
  | LinkAdviser json json
  | UpsertDependant json json json
  | UpsertProperty json json json
  | UpsertPension json json json
  | UpsertInvestment json json json
  | UpsertGoal json json json

fun execute :: "statement \<Rightarrow> graph \<Rightarrow> py_error + graph" where
  "execute (MergeAdviser name) g = merge_adviser name g"
| "execute (UpsertClient name ps) g = upsert_client name ps g"
| "execute (LinkAdviser c_name a_name) g = link_adviser c_name a_name g"
| "execute (UpsertDependant p_name ident ps) g = upsert_dependant p_name ident ps g"
| "execute (UpsertProperty c_name ident ps) g = upsert_property c_name ident ps g"
| "execute (UpsertPension owner ident ps) g = upsert_account ''Pension'' owner ident ps g"
| "execute (UpsertInvestment owner ident ps) g = upsert_account ''Investment'' owner ident ps g"
| "execute (UpsertGoal name ident ps) g = upsert_goal name ident ps g"

text \<open>The statements sent so far, and the exception that ended the body, if one did.\<close>

type_synonym sent = "statement list \<times> py_error option"

definition emit :: "statement \<Rightarrow> sent" where
  "emit q = ([q], None)"

definition skip :: sent where
  "skip = ([], None)"

definition raising :: "py_error + 'a \<Rightarrow> ('a \<Rightarrow> sent) \<Rightarrow> sent" where
  "raising x f = (case x of Inl e \<Rightarrow> ([], Some e) | Inr v \<Rightarrow> f v)"

definition and_then :: "sent \<Rightarrow> sent \<Rightarrow> sent" where
  "and_then a b = (case snd a of Some e \<Rightarrow> a | None \<Rightarrow> (fst a @ fst b, snd b))"

fun for_each :: "('a \<Rightarrow> sent) \<Rightarrow> 'a list \<Rightarrow> sent" where
  "for_each f [] = skip"
| "for_each f (x # xs) = and_then (f x) (for_each f xs)"

text \<open>
  The properties written for one client: its members that are not \<^verbatim>\<open>None\<close>, the
  \<^verbatim>\<open>source_document\<close> tag, and the primary client's name when it has no name.
  \<open>client_name\<close> is \<^verbatim>\<open>props['name']\<close>, a key that \<open>client_props\<close> always has.
\<close>

definition client_props :: "string \<Rightarrow> json \<Rightarrow> (string \<times> json) list \<Rightarrow> (string \<times> json) list" where
  "client_props document_name primary_client_name items =
     (let ps = AList.update ''source_document'' (JStr document_name)
                 (filter (\<lambda>kv. snd kv \<noteq> JNull) items)
      in if map_of ps ''name'' = None then AList.update ''name'' primary_client_name ps
         else ps)"

definition client_name :: "(string \<times> json) list \<Rightarrow> json" where
  "client_name ps = (case map_of ps ''name'' of None \<Rightarrow> JNull | Some v \<Rightarrow> v)"

definition client_step :: "json \<Rightarrow> string \<Rightarrow> json \<Rightarrow> json \<Rightarrow> sent" where
  "client_step adviser document_name primary_client_name client =
     raising (py_items client) (\<lambda>items.
       let ps = client_props document_name primary_client_name items in
       and_then (emit (UpsertClient (client_name ps) (JObj ps)))
         (if truthy adviser then emit (LinkAdviser (client_name ps) adviser) else skip))"

definition synthetic_id :: "(json \<Rightarrow> string) \<Rightarrow> json \<Rightarrow> string \<Rightarrow> nat \<Rightarrow> json" where
  "synthetic_id r owner kind idx = JStr (py_str r owner @ kind @ dec_nat idx)"

definition dependant_step :: "(json \<Rightarrow> string) \<Rightarrow> json \<Rightarrow> nat \<times> json \<Rightarrow> sent" where
  "dependant_step r primary_client_name p =
     emit (UpsertDependant primary_client_name
             (synthetic_id r primary_client_name ''_dep_'' (fst p)) (snd p))"

definition property_step :: "(json \<Rightarrow> string) \<Rightarrow> json \<Rightarrow> nat \<times> json \<Rightarrow> sent" where
  "property_step r primary_client_name p =
     emit (UpsertProperty primary_client_name
             (synthetic_id r primary_client_name ''_prop_'' (fst p)) (snd p))"

definition pension_step :: "(json \<Rightarrow> string) \<Rightarrow> json \<Rightarrow> nat \<times> json \<Rightarrow> sent" where
  "pension_step r primary_client_name p =
     raising (py_get (snd p) ''owner'' primary_client_name) (\<lambda>owner.
       emit (UpsertPension owner (synthetic_id r owner ''_pen_'' (fst p)) (snd p)))"

definition investment_step :: "(json \<Rightarrow> string) \<Rightarrow> json \<Rightarrow> nat \<times> json \<Rightarrow> sent" where
  "investment_step r primary_client_name p =
     raising (py_get (snd p) ''owner'' primary_client_name) (\<lambda>owner.
       emit (UpsertInvestment owner (synthetic_id r owner ''_inv_'' (fst p)) (snd p)))"

text \<open>\<^verbatim>\<open>for idx, x in enumerate(d.get(k, [])): ...\<close>\<close>

definition for_enumerate :: "json \<Rightarrow> string \<Rightarrow> (nat \<times> json \<Rightarrow> sent) \<Rightarrow> sent" where
  "for_enumerate d k f =
     raising (py_get d k (JArr [])) (\<lambda>xs.
       raising (py_iter xs) (\<lambda>ys. for_each f (List.enumerate 0 ys)))"

definition upsert_assets :: "(json \<Rightarrow> string) \<Rightarrow> json \<Rightarrow> json \<Rightarrow> sent" where
  "upsert_assets r entities primary_client_name =
     raising (py_get entities ''assets'' (JObj [])) (\<lambda>assets.
       and_then (for_enumerate assets ''properties'' (property_step r primary_client_name))
      (and_then (for_enumerate assets ''pensions'' (pension_step r primary_client_name))
                (for_enumerate assets ''investments'' (investment_step r primary_client_name))))"

definition upsert_goals :: "(json \<Rightarrow> string) \<Rightarrow> json \<Rightarrow> json \<Rightarrow> sent" where
  "upsert_goals r entities primary_client_name =
     raising (py_get entities ''goals'' (JObj [])) (\<lambda>goals.
       raising (py_get goals ''retirement'' JNull) (\<lambda>retirement.
         if truthy retirement then
           emit (UpsertGoal primary_client_name
                   (JStr (py_str r primary_client_name @ ''_ret_goal'')) retirement)
         else skip))"

text \<open>What follows \<^verbatim>\<open>if not clients: return\<close>.\<close>

definition upsert_clients :: "(json \<Rightarrow> string) \<Rightarrow> json \<Rightarrow> string \<Rightarrow> json \<Rightarrow> json \<Rightarrow> sent" where
  "upsert_clients r entities document_name adviser clients =
     raising (py_first clients) (\<lambda>first.
     raising (py_get first ''name'' (JStr (''Unknown_'' @ document_name))) (\<lambda>primary_client_name.
     raising (py_iter clients) (\<lambda>cs.
       and_then (for_each (client_step adviser document_name primary_client_name) cs)
      (and_then (for_enumerate entities ''dependants'' (dependant_step r primary_client_name))
      (and_then (upsert_assets r entities primary_client_name)
                (upsert_goals r entities primary_client_name))))))"

definition statements :: "(json \<Rightarrow> string) \<Rightarrow> json \<Rightarrow> string \<Rightarrow> sent" where
  "statements r entities document_name =
     (if \<not> truthy entities then skip
      else
        raising (py_get entities ''adviser'' JNull) (\<lambda>adviser.
          and_then (if truthy adviser then emit (MergeAdviser adviser) else skip)
            (raising (py_get entities ''clients'' (JArr [])) (\<lambda>clients.
               if \<not> truthy clients then skip
               else upsert_clients r entities document_name adviser clients))))"

text \<open>
  \<^verbatim>\<open>session.run\<close> commits each statement on its own: a statement that fails, or that
  the store refuses for the driver's credentials, leaves the store as it was, and the
  statements before it stay written. A call ends with the store, or with an exception and
  the store as it was when the exception was raised.
\<close>

type_synonym written = "(py_error \<times> graph) + graph"

fun run :: "statement list \<Rightarrow> graph \<Rightarrow> written" where
  "run [] g = Inr g"
| "run (q # qs) g =
     (if \<not> auth_ok g then Inl (AuthError, g)
      else case execute q g of Inl e \<Rightarrow> Inl (e, g) | Inr g' \<Rightarrow> run qs g')"

definition build_graph_from_entities ::
  "(json \<Rightarrow> string) \<Rightarrow> json \<Rightarrow> string \<Rightarrow> graph \<Rightarrow> written" where
  "build_graph_from_entities r entities document_name g =
     (case run (fst (statements r entities document_name)) g of
        Inl eg \<Rightarrow> Inl eg
      | Inr g' \<Rightarrow>
          (case snd (statements r entities document_name) of
             None \<Rightarrow> Inr g'
           | Some e \<Rightarrow> Inl (e, g')))"

text \<open>The store a call leaves behind, whether or not it raised.\<close>

definition final :: "written \<Rightarrow> graph" where
  "final w = (case w of Inl eg \<Rightarrow> snd eg | Inr g \<Rightarrow> g)"

section \<open>The batch: \<^verbatim>\<open>process_all_documents\<close> and \<^verbatim>\<open>main\<close>\<close>

text \<open>
  A document of the directory: the stem of its file name, what reading its paragraphs
  gives, and what the completion request followed by \<^verbatim>\<open>json.loads\<close> gives on its text.
\<close>

record document =
  stem :: string
  paragraphs :: "py_error + string"
  completion :: "py_error + json"

definition read_docx :: "document \<Rightarrow> string" where
  "read_docx d = (case paragraphs d of Inl e \<Rightarrow> [] | Inr t \<Rightarrow> t)"

definition extract_entities_with_groq :: "document \<Rightarrow> json" where
  "extract_entities_with_groq d = (case completion d of Inl e \<Rightarrow> JObj [] | Inr j \<Rightarrow> j)"

definition constraints :: "(string \<times> string) list" where
  "constraints =
     [(''Client'', ''name''), (''Dependant'', ''id''), (''Property'', ''id''),
      (''Pension'', ''id''), (''Investment'', ''id''), (''Adviser'', ''name'')]"

text \<open>
  \<^verbatim>\<open>CREATE CONSTRAINT ... IF NOT EXISTS\<close> fails when two nodes already share the
  value; \<^verbatim>\<open>create_constraints\<close> passes over every failure.
\<close>

definition duplicated :: "string \<times> string \<Rightarrow> graph \<Rightarrow> bool" where
  "duplicated lk g = list_ex (violates (g\<lparr>unique_on := [lk]\<rparr>)) [0..<length (nodes g)]"

definition create_constraint :: "string \<times> string \<Rightarrow> graph \<Rightarrow> graph" where
  "create_constraint lk g =
     (if \<not> auth_ok g \<or> duplicated lk g then g
      else g\<lparr>unique_on := List.insert lk (unique_on g)\<rparr>)"

definition create_constraints :: "graph \<Rightarrow> graph" where
  "create_constraints g = fold create_constraint constraints g"

definition DELAY_BETWEEN_DOCS_SECONDS :: nat where
  "DELAY_BETWEEN_DOCS_SECONDS = 30"

text \<open>What a run does outside the store, in order.\<close>

datatype event = Read string | Extract string | Upsert string | Sleep nat

record batch =
  successful :: nat
  failed :: nat
  store :: graph
  trace :: "event list"

text \<open>
  The \<^verbatim>\<open>try\<close> block of the loop. \<open>None\<close> is the \<^verbatim>\<open>continue\<close> of an empty text,
  which passes over the rest of the iteration; \<open>Some True\<close> is a document counted as
  successful, \<open>Some False\<close> one counted as failed.
\<close>

definition try_document ::
  "(json \<Rightarrow> string) \<Rightarrow> document \<Rightarrow> batch \<Rightarrow> (py_error \<times> batch) + (bool option \<times> batch)" where
  "try_document r d b =
     (let b1 = b\<lparr>trace := trace b @ [Read (stem d)]\<rparr> in
      if read_docx d = [] then Inr (None, b1\<lparr>failed := failed b1 + 1\<rparr>)
      else
        let b2 = b1\<lparr>trace := trace b1 @ [Extract (stem d)]\<rparr>;
            entities = extract_entities_with_groq d
        in if truthy entities then
             (let b3 = b2\<lparr>trace := trace b2 @ [Upsert (stem d)]\<rparr> in
              case build_graph_from_entities r entities (stem d) (store b3) of
                Inl eg \<Rightarrow> Inl (fst eg, b3\<lparr>store := snd eg\<rparr>)
              | Inr g \<Rightarrow> Inr (Some True, b3\<lparr>store := g, successful := successful b3 + 1\<rparr>))
           else Inr (Some False, b2\<lparr>failed := failed b2 + 1\<rparr>))"

text \<open>The \<^verbatim>\<open>if i < len(docx_files)\<close> that ends an iteration.\<close>

definition rate_limit_sleep :: "nat \<Rightarrow> nat \<Rightarrow> batch \<Rightarrow> batch" where
  "rate_limit_sleep i n b =
     (if i < n then b\<lparr>trace := trace b @ [Sleep DELAY_BETWEEN_DOCS_SECONDS]\<rparr> else b)"

text \<open>One iteration: the \<^verbatim>\<open>try\<close> block, its \<^verbatim>\<open>except Exception\<close>, and the sleep.\<close>

definition process_document :: "(json \<Rightarrow> string) \<Rightarrow> nat \<Rightarrow> nat \<Rightarrow> document \<Rightarrow> batch \<Rightarrow> batch" where
  "process_document r n i d b =
     (case try_document r d b of
        Inl eb \<Rightarrow> rate_limit_sleep i n ((snd eb)\<lparr>failed := failed (snd eb) + 1\<rparr>)
      | Inr (None, b') \<Rightarrow> b'
      | Inr (Some ok, b') \<Rightarrow> rate_limit_sleep i n b')"

text \<open>\<^verbatim>\<open>for i, filepath in enumerate(docx_files, 1)\<close>, with \<open>n = len(docx_files)\<close>.\<close>

fun process_documents ::
  "(json \<Rightarrow> string) \<Rightarrow> nat \<Rightarrow> nat \<Rightarrow> document list \<Rightarrow> batch \<Rightarrow> batch" where
  "process_documents r n i [] b = b"
| "process_documents r n i (d # ds) b = process_documents r n (Suc i) ds (process_document r n i d b)"

definition process_all_documents :: "(json \<Rightarrow> string) \<Rightarrow> document list \<Rightarrow> graph \<Rightarrow> batch" where
  "process_all_documents r docx_files g =
     process_documents r (length docx_files) 1 docx_files
       \<lparr>successful = 0, failed = 0, store = create_constraints g, trace = []\<rparr>"

text \<open>
  The environment: \<^verbatim>\<open>os.getenv\<close> gives \<open>None\<close> for a variable that is not set.
  \<^verbatim>\<open>NEO4J_URI\<close> and \<^verbatim>\<open>NEO4J_USER\<close> have defaults and are not modelled.
\<close>

record config =
  GROQ_API_KEY :: "string option"
  NEO4J_PASSWORD :: "string option"

definition unset :: "string option \<Rightarrow> bool" where
  "unset v \<longleftrightarrow> v = None \<or> v = Some []"

text \<open>
  \<^verbatim>\<open>Neo4jGraphBuilder.__init__\<close>: the driver is made without a connection, so the
  store is not asked about the credentials here; only the API key is looked at.
\<close>

definition Neo4jGraphBuilder_init :: "config \<Rightarrow> graph \<Rightarrow> py_error + graph" where
  "Neo4jGraphBuilder_init cfg g = (if unset (GROQ_API_KEY cfg) then Inl ValueError else Inr g)"

text \<open>
  \<^verbatim>\<open>main\<close>: \<open>None\<close> is one of the two early returns, before any builder exists.
  \<open>documents_dir\<close> is the content of the directory, when the directory exists.
\<close>

definition main ::
  "(json \<Rightarrow> string) \<Rightarrow> config \<Rightarrow> document list option \<Rightarrow> graph \<Rightarrow> py_error + batch option" where
  "main r cfg documents_dir g =
     (if unset (GROQ_API_KEY cfg) then Inr None
      else case documents_dir of
          None \<Rightarrow> Inr None
        | Some docx_files \<Rightarrow>
            (case Neo4jGraphBuilder_init cfg g of
               Inl e \<Rightarrow> Inl e
             | Inr g' \<Rightarrow> Inr (Some (process_all_documents r docx_files g'))))"

section \<open>Notions used to state the properties\<close>

text \<open>The documents whose reading began, and the delays, in the order of the trace.\<close>

fun started :: "event list \<Rightarrow> string list" where
  "started [] = []"
| "started (Read s # es) = s # started es"
| "started (e # es) = started es"

fun sleeps :: "event list \<Rightarrow> nat list" where
  "sleeps [] = []"
| "sleeps (Sleep k # es) = k # sleeps es"
| "sleeps (e # es) = sleeps es"

definition raises :: "written \<Rightarrow> bool" where
  "raises w = (case w of Inl eg \<Rightarrow> True | Inr g \<Rightarrow> False)"

text \<open>What one iteration of the loop does before its sleep.\<close>

definition document_events :: "document \<Rightarrow> event list" where
  "document_events d =
     Read (stem d) #
     (if read_docx d = [] then []
      else Extract (stem d) # (if truthy (extract_entities_with_groq d) then [Upsert (stem d)] else []))"

definition counted_successful :: "(json \<Rightarrow> string) \<Rightarrow> document \<Rightarrow> graph \<Rightarrow> bool" where
  "counted_successful r d g \<longleftrightarrow>
     read_docx d \<noteq> [] \<and> truthy (extract_entities_with_groq d) \<and>
     \<not> raises (build_graph_from_entities r (extract_entities_with_groq d) (stem d) g)"

definition frame :: "string set \<Rightarrow> graph \<Rightarrow> graph \<Rightarrow> bool" where
  "frame L g g' \<longleftrightarrow>
     length (nodes g) \<le> length (nodes g') \<and>
     (\<forall>i<length (nodes g). label (nodes g' ! i) = label (nodes g ! i) \<and>
         (label (nodes g ! i) \<notin> L \<longrightarrow> nodes g' ! i = nodes g ! i)) \<and>
     (\<forall>i<length (nodes g'). length (nodes g) \<le> i \<longrightarrow> label (nodes g' ! i) \<in> L) \<and>
     set (rels g) \<subseteq> set (rels g') \<and> unique_on g' = unique_on g \<and> auth_ok g' = auth_ok g"

declare set_props.simps [simp del]

fun touches :: "statement \<Rightarrow> string set" where
  "touches (MergeAdviser a) = {''Adviser''}"
| "touches (UpsertClient v m) = {''Client''}"
| "touches (LinkAdviser c a) = {}"
| "touches (UpsertDependant p i m) = {''Dependant''}"
| "touches (UpsertProperty p i m) = {''Property''}"
| "touches (UpsertPension p i m) = {''Client'', ''Pension''}"
| "touches (UpsertInvestment p i m) = {''Client'', ''Investment''}"
| "touches (UpsertGoal p i m) = {''Goal''}"

abbreviation clients_named :: "json \<Rightarrow> graph \<Rightarrow> nat list" where
  "clients_named v g \<equiv> match_nodes ''Client'' ''name'' v g"

fun sent_for :: "string \<Rightarrow> statement \<Rightarrow> bool" where
  "sent_for d (UpsertClient v (JObj kvs)) \<longleftrightarrow>
     map_of kvs ''name'' = Some v \<and> map_of kvs ''source_document'' = Some (JStr d)"
| "sent_for d (UpsertClient v m) \<longleftrightarrow> False"
| "sent_for d q \<longleftrightarrow> True"

definition tagged :: "string \<Rightarrow> json \<Rightarrow> graph \<Rightarrow> bool" where
  "tagged d v g \<longleftrightarrow>
     list_all (\<lambda>i. map_of (props (nodes g ! i)) ''source_document'' = Some (JStr d)) (clients_named v g)"

definition bare :: "json \<Rightarrow> graph \<Rightarrow> bool" where
  "bare v g \<longleftrightarrow> list_all (\<lambda>i. props (nodes g ! i) = [(''name'', v)]) (clients_named v g)"

definition clients_unique :: "graph \<Rightarrow> bool" where
  "clients_unique g \<longleftrightarrow> (\<forall>v. length (clients_named v g) \<le> 1)"

definition record_clients :: "json \<Rightarrow> json list" where
  "record_clients e = (case py_get e ''clients'' (JArr []) of Inr (JArr cs) \<Rightarrow> cs | _ \<Rightarrow> [])"

definition primary_name :: "string \<Rightarrow> json \<Rightarrow> json" where
  "primary_name d e =
     (case record_clients e of
        JObj kvs # cs \<Rightarrow> (case map_of kvs ''name'' of None \<Rightarrow> JStr (''Unknown_'' @ d) | Some v \<Rightarrow> v)
      | _ \<Rightarrow> JNull)"

fun written_name :: "json \<Rightarrow> json \<Rightarrow> json" where
  "written_name p (JObj kvs) =
     (case map_of kvs ''name'' of None \<Rightarrow> p | Some v \<Rightarrow> if v = JNull then p else v)"
| "written_name p c = JNull"

definition client_names :: "string \<Rightarrow> json \<Rightarrow> json list" where
  "client_names d e = map (written_name (primary_name d e)) (record_clients e)"

fun repeated :: "nat \<Rightarrow> (graph \<Rightarrow> written) \<Rightarrow> graph \<Rightarrow> written" where
  "repeated 0 f g = Inr g"
| "repeated (Suc n) f g = (case f g of Inl eg \<Rightarrow> Inl eg | Inr g' \<Rightarrow> repeated n f g')"

text \<open>The statements after the clients never write a client.\<close>

definition no_client :: "statement \<Rightarrow> bool" where
  "no_client q \<longleftrightarrow> (\<forall>v m. q \<noteq> UpsertClient v m)"

definition after_clients :: "(json \<Rightarrow> string) \<Rightarrow> json \<Rightarrow> json \<Rightarrow> sent" where
  "after_clients r e p =
     and_then (for_enumerate e ''dependants'' (dependant_step r p))
       (and_then (upsert_assets r e p) (upsert_goals r e p))"

definition record_accounts :: "json \<Rightarrow> json list" where
  "record_accounts e =
     (case py_get e ''assets'' (JObj []) of
        Inr a \<Rightarrow>
          (case py_get a ''pensions'' (JArr []) of Inr (JArr ps) \<Rightarrow> ps | _ \<Rightarrow> []) @
          (case py_get a ''investments'' (JArr []) of Inr (JArr ivs) \<Rightarrow> ivs | _ \<Rightarrow> [])
      | _ \<Rightarrow> [])"

fun explicit_owner :: "json \<Rightarrow> json option" where
  "explicit_owner (JObj kvs) = map_of kvs ''owner''"
| "explicit_owner c = None"

definition corpus :: "(json \<Rightarrow> string) \<Rightarrow> (json \<times> string) list \<Rightarrow> graph \<Rightarrow> graph" where
  "corpus r docs g = fold (\<lambda>ed h. final (build_graph_from_entities r (fst ed) (snd ed) h)) docs g"

definition household :: json where
  "household = JObj
     [(''clients'', JArr [JObj [(''name'', JStr ''Jane Doe''), (''age'', JInt 41)],
                          JObj [(''name'', JStr ''John Doe'')]]),
      (''dependants'', JArr [JObj [(''name'', JStr ''Amy'')], JObj [(''name'', JStr ''Ben'')]]),
      (''assets'', JObj
         [(''properties'', JArr [JObj [(''type'', JStr ''home'')], JObj [(''type'', JStr ''flat'')],
                                 JObj [(''type'', JStr ''land'')]]),
          (''pensions'', JArr [JObj [(''type'', JStr ''SIPP''), (''owner'', JStr ''Mary Major'')]])]),
      (''adviser'', JStr ''C D'')]"

definition review :: json where
  "review = JObj [(''clients'', JArr [JObj [(''name'', JStr ''Jane Doe''), (''age'', JInt 42)]])]"

definition nameless :: json where
  "nameless = JObj [(''clients'', JArr [JObj [(''name'', JStr ''Alice'')], JObj [(''age'', JInt 5)]])]"

definition orphan_pension :: json where
  "orphan_pension = JObj [(''assets'', JObj [(''pensions'', JArr [JObj [(''owner'', JStr ''Bob'')]])])]"

text \<open>The store that an iteration of the loop leaves to the next document.\<close>

definition store_after :: "(json \<Rightarrow> string) \<Rightarrow> document \<Rightarrow> graph \<Rightarrow> graph" where
  "store_after r d g =
     (if read_docx d \<noteq> [] \<and> truthy (extract_entities_with_groq d)
      then final (build_graph_from_entities r (extract_entities_with_groq d) (stem d) g)
      else g)"

text \<open>
  How many documents of a batch have a text, a record that is not empty and an upsert that
  does not raise, each upsert on the store that the documents before it left.
\<close>

fun successes :: "(json \<Rightarrow> string) \<Rightarrow> document list \<Rightarrow> graph \<Rightarrow> nat" where
  "successes r [] g = 0"
| "successes r (d # ds) g =
     (if counted_successful r d g then 1 else 0) + successes r ds (store_after r d g)"

text \<open>A record with neither clients nor an adviser.\<close>

definition nothing_to_write :: "json \<Rightarrow> bool" where
  "nothing_to_write e \<longleftrightarrow>
     (case py_get e ''clients'' (JArr []) of Inl x \<Rightarrow> False | Inr clients \<Rightarrow> \<not> truthy clients) \<and>
     (case py_get e ''adviser'' JNull of Inl x \<Rightarrow> False | Inr adviser \<Rightarrow> \<not> truthy adviser)"

text \<open>A member of a client entry of the record.\<close>

fun client_member :: "json \<Rightarrow> string \<Rightarrow> json option" where
  "client_member (JObj kvs) k = map_of kvs k"
| "client_member c k = None"

text \<open>The client entries of a record that are written under the name \<open>v\<close>.\<close>

definition entries_named :: "string \<Rightarrow> json \<Rightarrow> json \<Rightarrow> json list" where
  "entries_named d e v = filter (\<lambda>c. written_name (primary_name d e) c = v) (record_clients e)"

text \<open>
  No entry written under \<open>v\<close> has, for the member \<open>k\<close>, a value other than \<open>x\<close>.
  The record gives the client \<open>v\<close> the property \<open>k\<close> with the value \<open>x\<close> when, moreover,
  an entry written under \<open>v\<close> has it. The record is silent on \<open>k\<close> when no entry written
  under \<open>v\<close> has a value for it.
\<close>

definition undisputed :: "string \<Rightarrow> json \<Rightarrow> json \<Rightarrow> string \<Rightarrow> json \<Rightarrow> bool" where
  "undisputed d e v k x \<longleftrightarrow>
     list_all (\<lambda>c. client_member c k = None \<or> client_member c k = Some JNull \<or> client_member c k = Some x)
       (entries_named d e v)"

definition gives :: "string \<Rightarrow> json \<Rightarrow> json \<Rightarrow> string \<Rightarrow> json \<Rightarrow> bool" where
  "gives d e v k x \<longleftrightarrow>
     x \<noteq> JNull \<and> k \<noteq> ''name'' \<and> k \<noteq> ''source_document'' \<and>
     list_ex (\<lambda>c. client_member c k = Some x) (entries_named d e v) \<and> undisputed d e v k x"

definition silent :: "string \<Rightarrow> json \<Rightarrow> json \<Rightarrow> string \<Rightarrow> bool" where
  "silent d e v k \<longleftrightarrow>
     k \<noteq> ''name'' \<and> k \<noteq> ''source_document'' \<and>
     list_all (\<lambda>c. client_member c k = None \<or> client_member c k = Some JNull) (entries_named d e v)"

text \<open>Every Client node named \<open>v\<close> has the property \<open>k\<close> with the value \<open>x\<close>.\<close>

definition carries :: "string \<Rightarrow> json \<Rightarrow> json \<Rightarrow> graph \<Rightarrow> bool" where
  "carries k x v g \<longleftrightarrow> list_all (\<lambda>i. map_of (props (nodes g ! i)) k = Some x) (clients_named v g)"

definition intake :: json where
  "intake = JObj
     [(''clients'', JArr [JObj [(''name'', JStr ''Jane Doe''), (''age'', JInt 41),
                                (''city'', JStr ''Leeds'')]])]"

definition interrupted :: json where
  "interrupted = JObj
     [(''clients'', JArr [JObj [(''name'', JStr ''Alice'')]]),
      (''dependants'', JInt 5),
      (''assets'', JObj [(''pensions'', JArr [JObj [(''owner'', JStr ''Bob'')]])])]"

definition foreign_owner :: json where
  "foreign_owner = JObj
     [(''clients'', JArr [JObj [(''name'', JStr ''Alice'')]]),
      (''assets'', JObj [(''pensions'', JArr [JObj [(''owner'', JStr ''Bob'')]])])]"

definition bob_known :: graph where
  "bob_known = empty_graph\<lparr>nodes :=
     [Node ''Client'' [(''name'', JStr ''Bob''), (''source_document'', JStr ''letter0'')]]\<rparr>"









section \<open>A record without clients\<close>

lemma statements_no_clients:
  assumes "py_get entities ''clients'' (JArr []) = Inr clients" and "\<not> truthy clients"
    and "py_get entities ''adviser'' JNull = Inr adviser"
  shows "statements r entities document_name =
           (if truthy adviser then [MergeAdviser adviser] else [], None)"
  using assms
  by (cases entities)
     (auto simp: statements_def raising_def and_then_def emit_def skip_def)

lemma merge_adviser_nodes:
  "merge_adviser a g = Inr g' \<Longrightarrow>
     nodes g' = nodes g \<or> nodes g' = nodes g @ [Node ''Adviser'' [(''name'', a)]]"
  by (auto simp: merge_adviser_def merge_node_def split: if_splits list.splits)

text \<open>
  C1, as amended. A record whose \<^verbatim>\<open>clients\<close> is missing, empty or otherwise false sends
  no statement but the merge of its adviser, when it has one: without an adviser the store
  is left as it was, and with one at most the Adviser node is added.
\<close>

theorem no_clients_only_adviser_written:
  assumes "py_get entities ''clients'' (JArr []) = Inr clients" and "\<not> truthy clients"
    and "py_get entities ''adviser'' JNull = Inr adviser"
  shows "statements r entities document_name =
           (if truthy adviser then [MergeAdviser adviser] else [], None) \<and>
         (\<not> truthy adviser \<longrightarrow> build_graph_from_entities r entities document_name g = Inr g) \<and>
         (nodes (final (build_graph_from_entities r entities document_name g)) = nodes g \<or>
          nodes (final (build_graph_from_entities r entities document_name g)) =
            nodes g @ [Node ''Adviser'' [(''name'', adviser)]])"
proof -
  note st = statements_no_clients [OF assms, of r document_name]
  have "nodes (final (build_graph_from_entities r entities document_name g)) = nodes g \<or>
        nodes (final (build_graph_from_entities r entities document_name g)) =
          nodes g @ [Node ''Adviser'' [(''name'', adviser)]]"
    using merge_adviser_nodes [of adviser g]
    by (auto simp: build_graph_from_entities_def st final_def split: sum.splits)
  moreover have "\<not> truthy adviser \<longrightarrow> build_graph_from_entities r entities document_name g = Inr g"
    by (simp add: build_graph_from_entities_def st)
  ultimately show ?thesis using st by blast
qed

theorem no_clients_only_adviser_written_witness:
  "statements (\<lambda>v. []) (JObj [(''document_type'', JStr ''letter''), (''clients'', JArr [])]) ''doc''
     = ([], None) \<and>
   build_graph_from_entities (\<lambda>v. []) (JObj [(''document_type'', JStr ''letter''), (''clients'', JArr [])])
     ''doc'' empty_graph = Inr empty_graph"
  using no_clients_only_adviser_written
    [of "JObj [(''document_type'', JStr ''letter''), (''clients'', JArr [])]" "JArr []" JNull
        "\<lambda>v. []" "''doc''" empty_graph]
  by simp

text \<open>
  C1 as stated fails: the record \<^verbatim>\<open>{"adviser": "C D", "clients": []}\<close> has no clients,
  and the call on the empty store sends one statement and leaves an Adviser node.
\<close>

theorem no_clients_zero_writes_counterexample:
  "py_get (JObj [(''adviser'', JStr ''C D''), (''clients'', JArr [])]) ''clients'' (JArr []) = Inr (JArr []) \<and>
   fst (statements (\<lambda>v. []) (JObj [(''adviser'', JStr ''C D''), (''clients'', JArr [])]) ''doc'')
     = [MergeAdviser (JStr ''C D'')] \<and>
   build_graph_from_entities (\<lambda>v. []) (JObj [(''adviser'', JStr ''C D''), (''clients'', JArr [])])
     ''doc'' empty_graph
     = Inr (empty_graph\<lparr>nodes := [Node ''Adviser'' [(''name'', JStr ''C D'')]]\<rparr>) \<and>
   empty_graph\<lparr>nodes := [Node ''Adviser'' [(''name'', JStr ''C D'')]]\<rparr> \<noteq> empty_graph"
  by code_simp

section \<open>The batch\<close>

lemma started_append: "started (xs @ ys) = started xs @ started ys"
  by (induction xs rule: started.induct) auto

lemma sleeps_append: "sleeps (xs @ ys) = sleeps xs @ sleeps ys"
  by (induction xs rule: sleeps.induct) auto

lemma sleeps_document_events: "sleeps (document_events d) = []"
  by (simp add: document_events_def)

lemma process_document_trace:
  "trace (process_document r n i d b) =
     trace b @ document_events d @
       (if i < n \<and> read_docx d \<noteq> [] then [Sleep DELAY_BETWEEN_DOCS_SECONDS] else [])"
  by (simp add: process_document_def try_document_def rate_limit_sleep_def document_events_def
      Let_def split: sum.splits)

lemma process_document_successful:
  "successful (process_document r n i d b) =
     successful b + (if counted_successful r d (store b) then 1 else 0)"
  by (simp add: process_document_def try_document_def rate_limit_sleep_def counted_successful_def
      raises_def Let_def split: sum.splits)

lemma process_document_failed:
  "failed (process_document r n i d b) =
     failed b + (if counted_successful r d (store b) then 0 else 1)"
  by (simp add: process_document_def try_document_def rate_limit_sleep_def counted_successful_def
      raises_def Let_def split: sum.splits)

lemma process_document_store:
  "store (process_document r n i d b) =
     (if read_docx d \<noteq> [] \<and> truthy (extract_entities_with_groq d)
      then final (build_graph_from_entities r (extract_entities_with_groq d) (stem d) (store b))
      else store b)"
  by (simp add: process_document_def try_document_def rate_limit_sleep_def final_def
      Let_def split: sum.splits)

lemma process_documents_counts:
  "successful (process_documents r n i ds b) + failed (process_documents r n i ds b) =
     successful b + failed b + length ds"
  by (induction ds arbitrary: i b) (simp_all add: process_document_successful process_document_failed)

lemma process_documents_started:
  "started (trace (process_documents r n i ds b)) = started (trace b) @ map stem ds"
  by (induction ds arbitrary: i b)
     (simp_all add: process_document_trace started_append document_events_def)

lemma process_documents_sleeps:
  "i + length ds = Suc n \<Longrightarrow>
   sleeps (trace (process_documents r n i ds b)) =
     sleeps (trace b) @
       map (\<lambda>d. DELAY_BETWEEN_DOCS_SECONDS) (filter (\<lambda>d. read_docx d \<noteq> []) (butlast ds))"
proof (induction ds arbitrary: i b)
  case Nil
  then show ?case by simp
next
  case (Cons d ds)
  have "Suc i + length ds = Suc n" using Cons.prems by simp
  note IH = Cons.IH [OF this]
  show ?case
  proof (cases "ds = []")
    case True
    then have "\<not> i < n" using Cons.prems by simp
    with True show ?thesis
      by (simp add: process_document_trace sleeps_append sleeps_document_events)
  next
    case False
    then have "i < n" using Cons.prems by (cases ds) auto
    with False show ?thesis
      by (simp add: IH process_document_trace sleeps_append sleeps_document_events)
  qed
qed

text \<open>
  C6. Whatever the documents are, \<^verbatim>\<open>process_all_documents\<close> ends with every document
  counted once, as successful or as failed, and with every document read, in order. A
  document whose reading fails, whose extraction fails, or whose graph upsert raises, is
  counted as failed, and the loop goes on with the documents after it.
\<close>

theorem batch_survives_document_failures:
  "successful (process_all_documents r docs g) + failed (process_all_documents r docs g) = length docs \<and>
   started (trace (process_all_documents r docs g)) = map stem docs \<and>
   (paragraphs d = Inl e \<or> completion d = Inl e \<or>
    raises (build_graph_from_entities r (extract_entities_with_groq d) (stem d) (store b)) \<longrightarrow>
      failed (process_document r n i d b) = failed b + 1 \<and>
      successful (process_document r n i d b) = successful b \<and>
      started (trace (process_documents r n (Suc i) ds (process_document r n i d b))) =
        started (trace b) @ stem d # map stem ds)"
proof -
  have "successful (process_all_documents r docs g) + failed (process_all_documents r docs g) = length docs"
    using process_documents_counts [of r "length docs" 1 docs]
    by (simp add: process_all_documents_def)
  moreover have "started (trace (process_all_documents r docs g)) = map stem docs"
    by (simp add: process_all_documents_def process_documents_started)
  moreover have "started (trace (process_documents r n (Suc i) ds (process_document r n i d b))) =
        started (trace b) @ stem d # map stem ds"
    by (simp add: process_documents_started process_document_trace started_append document_events_def)
  moreover have "paragraphs d = Inl e \<or> completion d = Inl e \<or>
    raises (build_graph_from_entities r (extract_entities_with_groq d) (stem d) (store b)) \<Longrightarrow>
      \<not> counted_successful r d (store b)"
    by (auto simp: counted_successful_def read_docx_def extract_entities_with_groq_def)
  ultimately show ?thesis
    by (simp add: process_document_successful process_document_failed)
qed

theorem batch_survives_document_failures_witness:
  "raises (build_graph_from_entities (\<lambda>v. [])
      (extract_entities_with_groq \<lparr>stem = ''d1'', paragraphs = Inr ''text'', completion = Inr (JArr [JInt 1])\<rparr>)
      ''d1'' empty_graph) \<and>
   failed (process_document (\<lambda>v. []) 2 1
      \<lparr>stem = ''d1'', paragraphs = Inr ''text'', completion = Inr (JArr [JInt 1])\<rparr>
      \<lparr>successful = 0, failed = 0, store = empty_graph, trace = []\<rparr>) = 1 \<and>
   started (trace (process_documents (\<lambda>v. []) 2 2
      [\<lparr>stem = ''d2'', paragraphs = Inr ''text'', completion = Inr (JObj [(''document_type'', JStr ''letter'')])\<rparr>]
      (process_document (\<lambda>v. []) 2 1
         \<lparr>stem = ''d1'', paragraphs = Inr ''text'', completion = Inr (JArr [JInt 1])\<rparr>
         \<lparr>successful = 0, failed = 0, store = empty_graph, trace = []\<rparr>))) = [''d1'', ''d2'']"
proof -
  have h: "raises (build_graph_from_entities (\<lambda>v. [])
      (extract_entities_with_groq \<lparr>stem = ''d1'', paragraphs = Inr ''text'', completion = Inr (JArr [JInt 1])\<rparr>)
      ''d1'' empty_graph)"
    by code_simp
  show ?thesis
    using h batch_survives_document_failures
      [of "\<lambda>v. []" "[]" empty_graph
          "\<lparr>stem = ''d1'', paragraphs = Inr ''text'', completion = Inr (JArr [JInt 1])\<rparr>"
          RateLimitError
          "\<lparr>successful = 0, failed = 0, store = empty_graph, trace = []\<rparr>" 2 1
          "[\<lparr>stem = ''d2'', paragraphs = Inr ''text'', completion = Inr (JObj [(''document_type'', JStr ''letter'')])\<rparr>]"]
    by (simp add: numeral_2_eq_2)
qed

lemma successes_le: "successes r ds g \<le> length ds"
  by (induction ds arbitrary: g) (simp_all add: le_SucI)

lemma process_documents_successful:
  "successful (process_documents r n i ds b) = successful b + successes r ds (store b)"
  by (induction ds arbitrary: i b)
     (simp_all add: process_document_successful process_document_store store_after_def)

lemma process_documents_failed:
  "failed (process_documents r n i ds b) = failed b + (length ds - successes r ds (store b))"
  using process_documents_counts [of r n i ds b] process_documents_successful [of r n i ds b]
    successes_le [of r ds "store b"]
  by simp

lemma nothing_to_write_build:
  assumes "nothing_to_write e"
  shows "build_graph_from_entities r e d g = Inr g"
proof -
  from assms obtain clients adviser where
    c: "py_get e ''clients'' (JArr []) = Inr clients" "\<not> truthy clients"
    and a: "py_get e ''adviser'' JNull = Inr adviser" "\<not> truthy adviser"
    by (auto simp: nothing_to_write_def split: sum.splits)
  show ?thesis
    using statements_no_clients [OF c a(1), of r d] a(2)
    by (simp add: build_graph_from_entities_def)
qed

lemma process_documents_nothing_to_write:
  assumes "\<forall>d\<in>set ds. read_docx d \<noteq> [] \<and> truthy (extract_entities_with_groq d) \<and>
             nothing_to_write (extract_entities_with_groq d)"
  shows "successes r ds g = length ds \<and> store (process_documents r n i ds b) = store b"
  using assms
proof (induction ds arbitrary: g i b)
  case Nil
  then show ?case by simp
next
  case (Cons d ds)
  then have d: "read_docx d \<noteq> []" "truthy (extract_entities_with_groq d)"
    "nothing_to_write (extract_entities_with_groq d)"
    by simp_all
  have s: "store_after r d h = h" and c: "counted_successful r d h" for h
    using d nothing_to_write_build [OF d(3), of r "stem d" h]
    by (simp_all add: store_after_def final_def counted_successful_def raises_def)
  have "store (process_document r n i d b) = store b"
    using s [of "store b"] by (simp add: process_document_store store_after_def)
  then show ?case using Cons s c by simp
qed

text \<open>
  C10. \<^verbatim>\<open>process_all_documents\<close> ends with as many documents counted as successful as
  have a text, a record that is not empty and an upsert that does not raise, and with all
  the others counted as failed. In particular, documents whose records are not empty but
  have neither clients nor an adviser are all counted as successful, although nothing is
  written for them. In one iteration, a document is counted as successful exactly when its
  text is not empty, its record is not empty and the graph upsert does not raise; it is
  counted as failed exactly otherwise.
\<close>

theorem nonempty_record_counted_successful:
  "successful (process_all_documents r docs g) = successes r docs (create_constraints g) \<and>
   failed (process_all_documents r docs g) = length docs - successes r docs (create_constraints g) \<and>
   ((\<forall>d\<in>set docs. read_docx d \<noteq> [] \<and> truthy (extract_entities_with_groq d) \<and>
                    nothing_to_write (extract_entities_with_groq d)) \<longrightarrow>
      successful (process_all_documents r docs g) = length docs \<and>
      failed (process_all_documents r docs g) = 0 \<and>
      store (process_all_documents r docs g) = create_constraints g) \<and>
   (successful (process_document r n i d b) = successful b + 1 \<longleftrightarrow>
      read_docx d \<noteq> [] \<and> truthy (extract_entities_with_groq d) \<and>
      \<not> raises (build_graph_from_entities r (extract_entities_with_groq d) (stem d) (store b))) \<and>
   (failed (process_document r n i d b) = failed b + 1 \<longleftrightarrow>
      read_docx d = [] \<or> \<not> truthy (extract_entities_with_groq d) \<or>
      raises (build_graph_from_entities r (extract_entities_with_groq d) (stem d) (store b)))"
proof -
  have a: "successful (process_all_documents r docs g) = successes r docs (create_constraints g)"
    by (simp add: process_all_documents_def process_documents_successful)
  have b: "failed (process_all_documents r docs g) = length docs - successes r docs (create_constraints g)"
    by (simp add: process_all_documents_def process_documents_failed)
  have c: "successes r docs (create_constraints g) = length docs \<and>
      store (process_all_documents r docs g) = create_constraints g"
    if "\<forall>d\<in>set docs. read_docx d \<noteq> [] \<and> truthy (extract_entities_with_groq d) \<and>
                    nothing_to_write (extract_entities_with_groq d)"
    using process_documents_nothing_to_write [OF that, of r "create_constraints g" "length docs" 1
        "\<lparr>successful = 0, failed = 0, store = create_constraints g, trace = []\<rparr>"]
    by (simp add: process_all_documents_def)
  have d: "(successful (process_document r n i d b) = successful b + 1 \<longleftrightarrow>
      read_docx d \<noteq> [] \<and> truthy (extract_entities_with_groq d) \<and>
      \<not> raises (build_graph_from_entities r (extract_entities_with_groq d) (stem d) (store b))) \<and>
   (failed (process_document r n i d b) = failed b + 1 \<longleftrightarrow>
      read_docx d = [] \<or> \<not> truthy (extract_entities_with_groq d) \<or>
      raises (build_graph_from_entities r (extract_entities_with_groq d) (stem d) (store b)))"
    by (auto simp: process_document_successful process_document_failed counted_successful_def)
  show ?thesis using a b c d by simp
qed

theorem nonempty_record_counted_successful_witness:
  "successful (process_all_documents (\<lambda>v. [])
      [\<lparr>stem = ''d1'', paragraphs = Inr ''text'', completion = Inr (JObj [(''document_type'', JStr ''letter'')])\<rparr>,
       \<lparr>stem = ''d2'', paragraphs = Inr ''text'', completion = Inr (JObj [(''clients'', JArr [])])\<rparr>]
      empty_graph) = 2 \<and>
   failed (process_all_documents (\<lambda>v. [])
      [\<lparr>stem = ''d1'', paragraphs = Inr ''text'', completion = Inr (JObj [(''document_type'', JStr ''letter'')])\<rparr>,
       \<lparr>stem = ''d2'', paragraphs = Inr ''text'', completion = Inr (JObj [(''clients'', JArr [])])\<rparr>]
      empty_graph) = 0 \<and>
   store (process_all_documents (\<lambda>v. [])
      [\<lparr>stem = ''d1'', paragraphs = Inr ''text'', completion = Inr (JObj [(''document_type'', JStr ''letter'')])\<rparr>,
       \<lparr>stem = ''d2'', paragraphs = Inr ''text'', completion = Inr (JObj [(''clients'', JArr [])])\<rparr>]
      empty_graph) = create_constraints empty_graph"
proof -
  let ?docs = "[\<lparr>stem = ''d1'', paragraphs = Inr ''text'', completion = Inr (JObj [(''document_type'', JStr ''letter'')])\<rparr>,
       \<lparr>stem = ''d2'', paragraphs = Inr ''text'', completion = Inr (JObj [(''clients'', JArr [])])\<rparr>]"
  have h: "\<forall>d\<in>set ?docs. read_docx d \<noteq> [] \<and> truthy (extract_entities_with_groq d) \<and>
                    nothing_to_write (extract_entities_with_groq d)"
    by (simp add: read_docx_def extract_entities_with_groq_def nothing_to_write_def)
  have l: "length ?docs = 2" by simp
  note t = nonempty_record_counted_successful [of "\<lambda>v. []" ?docs empty_graph]
  have "successful (process_all_documents (\<lambda>v. []) ?docs empty_graph) = length ?docs \<and>
      failed (process_all_documents (\<lambda>v. []) ?docs empty_graph) = 0 \<and>
      store (process_all_documents (\<lambda>v. []) ?docs empty_graph) = create_constraints empty_graph"
    using conjunct1 [OF conjunct2 [OF conjunct2 [OF t]]] h by (rule mp)
  then show ?thesis by (simp only: l)
qed

text \<open>
  C8, as amended. An iteration ends with the delay exactly when its document is not the
  last one and its text is not empty; nothing else in the iteration sleeps. So the batch
  sleeps once for each document, other than the last, whose text is not empty: after a
  document with an empty text the next one starts at once.
\<close>

theorem delay_follows_documents_with_text:
  "trace (process_document r n i d b) =
     trace b @ document_events d @
       (if i < n \<and> read_docx d \<noteq> [] then [Sleep DELAY_BETWEEN_DOCS_SECONDS] else []) \<and>
   sleeps (document_events d) = [] \<and>
   sleeps (trace (process_all_documents r docs g)) =
     map (\<lambda>d. DELAY_BETWEEN_DOCS_SECONDS) (filter (\<lambda>d. read_docx d \<noteq> []) (butlast docs))"
  using process_documents_sleeps [of 1 docs "length docs" r]
  by (simp add: process_document_trace sleeps_document_events process_all_documents_def)

text \<open>
  C8 as stated fails: in a batch of two documents of which the first cannot be read, no
  delay separates the first document from the second.
\<close>

theorem delay_between_documents_counterexample:
  "trace (process_all_documents (\<lambda>v. [])
      [\<lparr>stem = ''d1'', paragraphs = Inl PackageNotFoundError, completion = Inl APIError\<rparr>,
       \<lparr>stem = ''d2'', paragraphs = Inr ''text'', completion = Inr (JObj [(''document_type'', JStr ''letter'')])\<rparr>]
      empty_graph) = [Read ''d1'', Read ''d2'', Extract ''d2'', Upsert ''d2''] \<and>
   failed (process_all_documents (\<lambda>v. [])
      [\<lparr>stem = ''d1'', paragraphs = Inl PackageNotFoundError, completion = Inl APIError\<rparr>,
       \<lparr>stem = ''d2'', paragraphs = Inr ''text'', completion = Inr (JObj [(''document_type'', JStr ''letter'')])\<rparr>]
      empty_graph) = 1"
  by code_simp

section \<open>The configuration\<close>

lemma main_without_api_key: "unset (GROQ_API_KEY cfg) \<Longrightarrow> main r cfg documents_dir g = Inr None"
  by (simp add: main_def)

lemma main_ignores_password:
  "main r (cfg\<lparr>NEO4J_PASSWORD := p\<rparr>) documents_dir g = main r cfg documents_dir g"
  by (simp add: main_def Neo4jGraphBuilder_init_def split: option.splits)

text \<open>
  C7. With the API key set and no password, \<^verbatim>\<open>main\<close> does not stop: on a store that
  refuses the driver, the document is read, sent to extraction, and counted as failed only
  when its upsert is refused.
\<close>

theorem main_without_password_processes_documents:
  "main (\<lambda>v. []) \<lparr>GROQ_API_KEY = Some ''key'', NEO4J_PASSWORD = None\<rparr>
      (Some [\<lparr>stem = ''d1'', paragraphs = Inr ''text'',
              completion = Inr (JObj [(''clients'', JArr [JObj [(''name'', JStr ''A B'')]])])\<rparr>])
      (empty_graph\<lparr>auth_ok := False\<rparr>) =
   Inr (Some \<lparr>successful = 0, failed = 1, store = empty_graph\<lparr>auth_ok := False\<rparr>,
              trace = [Read ''d1'', Extract ''d1'', Upsert ''d1'']\<rparr>)"
  by code_simp

lemma frame_refl [simp]: "frame L g g"
  by (simp add: frame_def)

lemma frame_trans: "frame L g h \<Longrightarrow> frame L h k \<Longrightarrow> frame L g k"
  unfolding frame_def by (auto; metis le_trans less_le_trans not_le)

lemma frame_mono: "frame L g h \<Longrightarrow> L \<subseteq> M \<Longrightarrow> frame M g h"
  unfolding frame_def by auto

lemma map_of_put:
  "map_of (put kv ps) k =
     (if k = fst kv then (if snd kv = JNull then None else Some (snd kv)) else map_of ps k)"
  by (simp add: put_def AList.update_conv AList.delete_conv)

lemma map_of_fold_put:
  "distinct (map fst al) \<Longrightarrow>
   map_of (fold put al ps) k =
     (case map_of al k of None \<Rightarrow> map_of ps k | Some v \<Rightarrow> if v = JNull then None else Some v)"
proof (induction al arbitrary: ps)
  case Nil
  then show ?case by simp
next
  case (Cons kv al)
  then have "map_of al (fst kv) = None"
    by (simp add: map_of_eq_None_iff)
  with Cons show ?case
    by (cases kv) (auto simp: map_of_put split: option.splits)
qed

lemma map_of_set_props:
  "map_of (fold put (AList.clearjunk kvs) ps) k =
     (case map_of kvs k of None \<Rightarrow> map_of ps k | Some v \<Rightarrow> if v = JNull then None else Some v)"
  by (simp add: map_of_fold_put AList.map_of_clearjunk)

lemma set_props_Inr:
  assumes "set_props i m g = Inr g'"
  obtains kvs where "m = JObj kvs"
    and "g' = g\<lparr>nodes := (nodes g)[i := Node (label (nodes g ! i))
                   (fold put (AList.clearjunk kvs) (props (nodes g ! i)))]\<rparr>"
  using assms by (cases m) (auto simp: set_props.simps Let_def split: if_splits)

lemma set_props_JObj:
  "set_props i (JObj kvs) g = Inr g' \<Longrightarrow>
     g' = g\<lparr>nodes := (nodes g)[i := Node (label (nodes g ! i))
                   (fold put (AList.clearjunk kvs) (props (nodes g ! i)))]\<rparr>"
  by (auto simp: set_props.simps Let_def split: if_splits)

lemma set_props_frame:
  "set_props i m g = Inr g' \<Longrightarrow> frame {label (nodes g ! i)} g g'"
proof (erule set_props_Inr)
  fix kvs
  assume g': "g' = g\<lparr>nodes := (nodes g)[i := Node (label (nodes g ! i))
                   (fold put (AList.clearjunk kvs) (props (nodes g ! i)))]\<rparr>"
  show "frame {label (nodes g ! i)} g g'"
  proof (cases "i < length (nodes g)")
    case True
    then show ?thesis by (auto simp: g' frame_def nth_list_update)
  next
    case False
    then show ?thesis by (simp add: g' frame_def)
  qed
qed

lemma match_nodes_iff:
  "i \<in> set (match_nodes l k v g) \<longleftrightarrow> i < length (nodes g) \<and> has_key l k v (nodes g ! i)"
  by (auto simp: match_nodes_def)

lemma match_nodes_append:
  "match_nodes l k v (g\<lparr>nodes := nodes g @ [n]\<rparr>) =
     match_nodes l k v g @ (if has_key l k v n then [length (nodes g)] else [])"
  by (auto simp: match_nodes_def nth_append intro!: filter_cong)

lemma merge_node_Inr:
  assumes "merge_node l k v g = Inr (g', xs)"
  shows "v \<noteq> JNull \<and> storable v \<and> xs = match_nodes l k v g' \<and> xs \<noteq> [] \<and>
         (match_nodes l k v g \<noteq> [] \<and> g' = g \<or>
          match_nodes l k v g = [] \<and> g' = g\<lparr>nodes := nodes g @ [Node l [(k, v)]]\<rparr>)"
  using assms
  by (auto simp: merge_node_def match_nodes_append has_key_def split: if_splits list.splits)

lemma merge_node_frame: "merge_node l k v g = Inr (g', xs) \<Longrightarrow> frame {l} g g'"
  by (drule merge_node_Inr) (auto simp: frame_def nth_append)

lemma merge_rel_frame: "frame L g (merge_rel a t b g)"
  by (auto simp: frame_def merge_rel_def)

lemma each_row_invariant:
  assumes "each_row f xs g = Inr g'" and "P g"
    and "\<And>x h h'. x \<in> set xs \<Longrightarrow> P h \<Longrightarrow> f x h = Inr h' \<Longrightarrow> P h'"
  shows "P g'"
  using assms
proof (induction xs arbitrary: g)
  case Nil
  then show ?case by simp
next
  case (Cons x xs)
  from Cons.prems(1) obtain h where h: "f x g = Inr h" and rest: "each_row f xs h = Inr g'"
    by (auto split: sum.splits)
  have "P h" using Cons.prems(2) h by (rule Cons.prems(3) [of x, simplified])
  moreover have "\<And>y k k'. y \<in> set xs \<Longrightarrow> P k \<Longrightarrow> f y k = Inr k' \<Longrightarrow> P k'"
    using Cons.prems(3) by (meson list.set_intros(2))
  ultimately show ?case
    using Cons.IH [OF rest] by blast
qed

lemma frame_label:
  "frame L g h \<Longrightarrow> i < length (nodes g) \<Longrightarrow> label (nodes h ! i) = label (nodes g ! i) \<and> i < length (nodes h)"
  by (auto simp: frame_def)

lemma upsert_linked_frame:
  assumes "upsert_linked cs l v ms t g = Inr g'"
  shows "frame {l} g g'"
proof -
  have inner: "frame {l} k k'"
    if "each_row (set_props x) ms k = Inr k'" "x < length (nodes k)" "label (nodes k ! x) = l"
    for x k k'
  proof -
    have "frame {l} k k' "
      using that(1)
    proof (rule each_row_invariant [where P = "\<lambda>h. frame {l} k h"])
      show "frame {l} k k" by simp
    next
      fix m h h'
      assume "frame {l} k h" "set_props x m h = Inr h'"
      moreover from \<open>frame {l} k h\<close> that have "label (nodes h ! x) = l"
        using frame_label by blast
      ultimately show "frame {l} k h'"
        using set_props_frame frame_trans by metis
    qed
    then show ?thesis .
  qed
  show ?thesis
    using assms unfolding upsert_linked_def
  proof (rule each_row_invariant [where P = "\<lambda>h. frame {l} g h"])
    show "frame {l} g g" by simp
  next
    fix c h h'
    assume fr: "frame {l} g h"
      and step: "(case merge_node l ''id'' v h of Inl e \<Rightarrow> Inl e
        | Inr (g2, xs) \<Rightarrow> each_row (\<lambda>x g3. case each_row (set_props x) ms g3 of Inl e \<Rightarrow> Inl e
             | Inr g4 \<Rightarrow> Inr (merge_rel c t x g4)) xs g2) = Inr h'"
    then obtain g2 xs where mn: "merge_node l ''id'' v h = Inr (g2, xs)"
      and er: "each_row (\<lambda>x g3. case each_row (set_props x) ms g3 of Inl e \<Rightarrow> Inl e
             | Inr g4 \<Rightarrow> Inr (merge_rel c t x g4)) xs g2 = Inr h'"
      by (auto split: sum.splits)
    have f2: "frame {l} h g2" using mn by (rule merge_node_frame)
    have xs: "\<forall>x\<in>set xs. x < length (nodes g2) \<and> label (nodes g2 ! x) = l"
      using merge_node_Inr [OF mn] by (auto simp: match_nodes_iff has_key_def)
    have "frame {l} g2 h'"
      using er
    proof (rule each_row_invariant [where P = "\<lambda>k. frame {l} g2 k"])
      show "frame {l} g2 g2" by simp
    next
      fix x k k'
      assume x: "x \<in> set xs" and k: "frame {l} g2 k"
        and s: "(case each_row (set_props x) ms k of Inl e \<Rightarrow> Inl e | Inr g4 \<Rightarrow> Inr (merge_rel c t x g4)) = Inr k'"
      then obtain g4 where g4: "each_row (set_props x) ms k = Inr g4" and k': "k' = merge_rel c t x g4"
        by (auto split: sum.splits)
      from x xs k have "x < length (nodes k)" "label (nodes k ! x) = l"
        using frame_label by auto
      then have "frame {l} k g4" using inner [OF g4] by simp
      then show "frame {l} g2 k'"
        using k k' merge_rel_frame frame_trans by metis
    qed
    with fr f2 show "frame {l} g h'" using frame_trans by blast
  qed
qed

lemma frame_match:
  assumes "frame L g g'" and "l \<notin> L"
  shows "match_nodes l k v g' = match_nodes l k v g"
proof -
  have le: "length (nodes g) \<le> length (nodes g')" using assms(1) by (simp add: frame_def)
  then have "[0..<length (nodes g')] = [0..<length (nodes g)] @ [length (nodes g)..<length (nodes g')]"
    by (metis le_add_diff_inverse upt_add_eq_append zero_le)
  moreover have "filter (\<lambda>i. has_key l k v (nodes g' ! i)) [length (nodes g)..<length (nodes g')] = []"
    using assms by (auto simp: frame_def has_key_def filter_empty_conv)
  moreover have "filter (\<lambda>i. has_key l k v (nodes g' ! i)) [0..<length (nodes g)] =
                 filter (\<lambda>i. has_key l k v (nodes g ! i)) [0..<length (nodes g)]"
    using assms by (intro filter_cong) (auto simp: frame_def has_key_def)
  ultimately show ?thesis by (simp add: match_nodes_def)
qed

lemma match_nodes_update:
  assumes "has_key l k v n' \<longleftrightarrow> has_key l k v (nodes g ! i)"
  shows "match_nodes l k v (g\<lparr>nodes := (nodes g)[i := n']\<rparr>) = match_nodes l k v g"
proof -
  have "has_key l k v ((nodes g)[i := n'] ! x) \<longleftrightarrow> has_key l k v (nodes g ! x)"
    if "x < length (nodes g)" for x
    using that assms by (cases "x = i") simp_all
  then show ?thesis
    by (auto simp: match_nodes_def intro!: filter_cong)
qed

lemma fold_merge_rel_frame: "frame L g (fold (\<lambda>a. merge_rel a t c) as g)"
proof (induction as arbitrary: g)
  case Nil
  show ?case by simp
next
  case (Cons a as)
  show ?case using Cons [of "merge_rel a t c g"] merge_rel_frame [of L g a t c] frame_trans
    by auto
qed

lemma link_adviser_frame: "link_adviser c a g = Inr g' \<Longrightarrow> frame {} g g'"
proof -
  have "frame {} g (fold (\<lambda>c. fold (\<lambda>a. merge_rel a t c) as) cs g)" for as cs t
  proof (induction cs arbitrary: g)
    case Nil
    show ?case by simp
  next
    case (Cons c cs)
    show ?case
      using Cons [of "fold (\<lambda>a. merge_rel a t c) as g"] fold_merge_rel_frame [of "{}" g t c as] frame_trans
      by auto
  qed
  then show "link_adviser c a g = Inr g' \<Longrightarrow> frame {} g g'"
    by (auto simp: link_adviser_def)
qed

lemma each_row_establish_in:
  assumes "each_row f ys g = Inr g'" and "x \<in> set ys" and "P g" and "set ys \<subseteq> A"
    and pres: "\<And>y h h'. y \<in> A \<Longrightarrow> P h \<Longrightarrow> f y h = Inr h' \<Longrightarrow> P h'"
    and est: "\<And>h h'. P h \<Longrightarrow> f x h = Inr h' \<Longrightarrow> Q h'"
    and keep: "\<And>y h h'. y \<in> A \<Longrightarrow> P h \<Longrightarrow> Q h \<Longrightarrow> f y h = Inr h' \<Longrightarrow> Q h'"
  shows "Q g'"
  using assms(1,2,3,4)
proof (induction ys arbitrary: g)
  case Nil
  then show ?case by simp
next
  case (Cons y ys)
  from Cons.prems(1) obtain h where h: "f y g = Inr h" and rest: "each_row f ys h = Inr g'"
    by (auto split: sum.splits)
  have y: "y \<in> A" and ys: "set ys \<subseteq> A" using Cons.prems(4) by auto
  have Ph: "P h" using pres [OF y Cons.prems(3) h] .
  show ?case
  proof (cases "x \<in> set ys")
    case True
    then show ?thesis using Cons.IH [OF rest _ Ph ys] by simp
  next
    case False
    then have "x = y" using Cons.prems(2) by simp
    then have "Q h" using est [OF Cons.prems(3)] h by simp
    have "P g' \<and> Q g'"
      using rest
    proof (rule each_row_invariant [where P = "\<lambda>k. P k \<and> Q k"])
      show "P h \<and> Q h" using Ph \<open>Q h\<close> by simp
    next
      fix z k k' assume "z \<in> set ys" "P k \<and> Q k" "f z k = Inr k'"
      then show "P k' \<and> Q k'" using pres keep ys by blast
    qed
    then show ?thesis by simp
  qed
qed

lemma each_row_establish:
  assumes "each_row f xs g = Inr g'" and "x \<in> set xs" and "P g"
    and "\<And>y h h'. y \<in> set xs \<Longrightarrow> P h \<Longrightarrow> f y h = Inr h' \<Longrightarrow> P h'"
    and "\<And>h h'. P h \<Longrightarrow> f x h = Inr h' \<Longrightarrow> Q h'"
    and "\<And>y h h'. y \<in> set xs \<Longrightarrow> P h \<Longrightarrow> Q h \<Longrightarrow> f y h = Inr h' \<Longrightarrow> Q h'"
  shows "Q g'"
  using assms(1,2,3) subset_refl assms(4,5,6)
  by (rule each_row_establish_in [where A = "set xs" and P = P])

text \<open>The client statement: what it does to the nodes.\<close>

lemma has_key_set_props:
  assumes "has_key ''Client'' ''name'' v n" and "map_of kvs ''name'' = Some v"
  shows "has_key ''Client'' ''name'' w (Node (label n) (fold put (AList.clearjunk kvs) (props n)))
           \<longleftrightarrow> has_key ''Client'' ''name'' w n"
  using assms by (auto simp: has_key_def map_of_set_props)

lemma upsert_client_effect:
  assumes "upsert_client v (JObj kvs) g = Inr g'" and "map_of kvs ''name'' = Some v"
  shows "frame {''Client''} g g'"
    and "\<And>w. w \<noteq> v \<Longrightarrow> clients_named w g' = clients_named w g"
    and "clients_named v g' = (if clients_named v g = [] then [length (nodes g)] else clients_named v g)"
    and "\<And>i. i < length (nodes g) \<Longrightarrow> i \<notin> set (clients_named v g) \<Longrightarrow> nodes g' ! i = nodes g ! i"
    and "\<And>i k x. i \<in> set (clients_named v g') \<Longrightarrow> map_of kvs k = Some x \<Longrightarrow> x \<noteq> JNull \<Longrightarrow>
           map_of (props (nodes g' ! i)) k = Some x"
proof -
  from assms(1) obtain g1 cs where mn: "merge_node ''Client'' ''name'' v g = Inr (g1, cs)"
    and er: "each_row (\<lambda>c. set_props c (JObj kvs)) cs g1 = Inr g'"
    by (auto simp: upsert_client_def split: sum.splits)
  note m = merge_node_Inr [OF mn]
  have cs: "cs = clients_named v g1" using m by simp
  have g1v: "clients_named v g1 = (if clients_named v g = [] then [length (nodes g)] else clients_named v g)"
    using m by (auto simp: match_nodes_append has_key_def)
  have g1w: "clients_named w g1 = clients_named w g" if "w \<noteq> v" for w
    using m that by (auto simp: match_nodes_append has_key_def)
  have g1old: "nodes g1 ! i = nodes g ! i" if "i < length (nodes g)" for i
    using m that by (auto simp: nth_append)
  define P where "P h \<longleftrightarrow> frame {''Client''} g1 h \<and> (\<forall>w. clients_named w h = clients_named w g1) \<and>
     length (nodes h) = length (nodes g1) \<and>
     (\<forall>i. i \<notin> set cs \<longrightarrow> nodes h ! i = nodes g1 ! i)" for h
  have step: "P h'" if "c \<in> set cs" "P h" "set_props c (JObj kvs) h = Inr h'" for c h h'
  proof -
    from that(1,2) have "c \<in> set (clients_named v h)"
      by (simp add: P_def cs)
    then have c: "c < length (nodes h)" "has_key ''Client'' ''name'' v (nodes h ! c)"
      by (simp_all add: match_nodes_iff)
    then have lab: "label (nodes h ! c) = ''Client''" by (simp add: has_key_def)
    from that(3) have h': "h' = h\<lparr>nodes := (nodes h)[c := Node (label (nodes h ! c))
                   (fold put (AList.clearjunk kvs) (props (nodes h ! c)))]\<rparr>"
      by (rule set_props_JObj)
    have "frame {''Client''} h h'" using set_props_frame [OF that(3)] lab by simp
    moreover have "clients_named w h' = clients_named w h" for w
      unfolding h' by (rule match_nodes_update) (rule has_key_set_props [OF c(2) assms(2)])
    moreover have "nodes h' ! i = nodes h ! i" if "i \<notin> set cs" for i
    proof -
      from that \<open>c \<in> set cs\<close> have "c \<noteq> i" by auto
      then show ?thesis by (simp add: h')
    qed
    ultimately show ?thesis using that(2) frame_trans by (auto simp: P_def h')
  qed
  have "P g'"
    using er
  proof (rule each_row_invariant [where P = P])
    show "P g1" by (simp add: P_def)
  next
    fix c h h' assume "c \<in> set cs" "P h" "set_props c (JObj kvs) h = Inr h'"
    then show "P h'" by (rule step)
  qed
  then have Pg': "frame {''Client''} g1 g'" "\<And>w. clients_named w g' = clients_named w g1"
    "\<And>i. i \<notin> set cs \<Longrightarrow> nodes g' ! i = nodes g1 ! i"
    by (auto simp: P_def)
  show "frame {''Client''} g g'"
    using merge_node_frame [OF mn] Pg'(1) frame_trans by blast
  show "clients_named w g' = clients_named w g" if "w \<noteq> v" for w
    using Pg'(2) g1w that by simp
  show "clients_named v g' = (if clients_named v g = [] then [length (nodes g)] else clients_named v g)"
    using Pg'(2) g1v by simp
  show "nodes g' ! i = nodes g ! i" if "i < length (nodes g)" "i \<notin> set (clients_named v g)" for i
  proof -
    have "i \<notin> set cs" using that by (auto simp: cs g1v split: if_splits)
    then show ?thesis using Pg'(3) g1old that by simp
  qed
  show "map_of (props (nodes g' ! i)) k = Some x"
    if "i \<in> set (clients_named v g')" "map_of kvs k = Some x" "x \<noteq> JNull" for i k x
  proof -
    have i: "i \<in> set cs" using that(1) Pg'(2) cs by simp
    show ?thesis
      using er i
    proof (rule each_row_establish [where P = P])
      show "P g1" by (simp add: P_def)
    next
      fix y h h' assume "y \<in> set cs" "P h" "set_props y (JObj kvs) h = Inr h'"
      then show "P h'" by (rule step)
    next
      fix h h' assume "P h" and sp: "set_props i (JObj kvs) h = Inr h'"
      then have "i \<in> set (clients_named v h)" using i by (simp add: P_def cs)
      then have "i < length (nodes h)" by (simp add: match_nodes_iff)
      with set_props_JObj [OF sp] show "map_of (props (nodes h' ! i)) k = Some x"
        using that(2,3) by (simp add: map_of_set_props)
    next
      fix y h h' assume "y \<in> set cs" "P h" and Q: "map_of (props (nodes h ! i)) k = Some x"
        and sp: "set_props y (JObj kvs) h = Inr h'"
      show "map_of (props (nodes h' ! i)) k = Some x"
      proof (cases "y = i")
        case True
        from \<open>P h\<close> have "i \<in> set (clients_named v h)" using i by (simp add: P_def cs)
        then have "i < length (nodes h)" by (simp add: match_nodes_iff)
        with set_props_JObj [OF sp] True show ?thesis
          using that(2,3) by (simp add: map_of_set_props)
      next
        case False
        with set_props_JObj [OF sp] Q show ?thesis by simp
      qed
    qed
  qed
qed

lemma upsert_account_effect:
  assumes "upsert_account l owner ident m g = Inr g'" and "l \<noteq> ''Client''"
  shows "frame {''Client'', l} g g'"
    and "\<And>w. w \<noteq> owner \<Longrightarrow> clients_named w g' = clients_named w g"
    and "clients_named owner g' =
           (if clients_named owner g = [] then [length (nodes g)] else clients_named owner g)"
    and "\<And>i. i < length (nodes g) \<Longrightarrow> label (nodes g ! i) = ''Client'' \<Longrightarrow> nodes g' ! i = nodes g ! i"
    and "clients_named owner g = [] \<Longrightarrow> nodes g' ! length (nodes g) = Node ''Client'' [(''name'', owner)]"
proof -
  from assms(1) obtain g1 cs where mn: "merge_node ''Client'' ''name'' owner g = Inr (g1, cs)"
    and ul: "upsert_linked cs l ident [m] ''HAS_ACCOUNT'' g1 = Inr g'"
    by (auto simp: upsert_account_def split: sum.splits)
  note m = merge_node_Inr [OF mn]
  note f1 = merge_node_frame [OF mn]
  note f2 = upsert_linked_frame [OF ul]
  have same: "clients_named w g' = clients_named w g1" for w
    using f2 assms(2) by (intro frame_match) auto
  show "frame {''Client'', l} g g'"
  proof -
    have "frame {''Client'', l} g g1" using f1 by (rule frame_mono) simp
    moreover have "frame {''Client'', l} g1 g'" using f2 by (rule frame_mono) simp
    ultimately show ?thesis by (rule frame_trans)
  qed
  show "clients_named w g' = clients_named w g" if "w \<noteq> owner" for w
    using m that by (auto simp: same match_nodes_append has_key_def)
  show "clients_named owner g' =
           (if clients_named owner g = [] then [length (nodes g)] else clients_named owner g)"
    using m by (auto simp: same match_nodes_append has_key_def)
  have old: "nodes g' ! i = nodes g1 ! i" if "i < length (nodes g1)" "label (nodes g1 ! i) = ''Client''" for i
    using f2 that assms(2) by (auto simp: frame_def)
  show "nodes g' ! i = nodes g ! i" if "i < length (nodes g)" "label (nodes g ! i) = ''Client''" for i
    using m that old [of i] by (auto simp: nth_append)
  show "nodes g' ! length (nodes g) = Node ''Client'' [(''name'', owner)]" if "clients_named owner g = []"
    using m that old [of "length (nodes g)"] by auto
qed

lemma execute_frame:
  assumes "execute q g = Inr g'" and "sent_for d q"
  shows "frame (touches q) g g'"
proof (cases q)
  case (MergeAdviser a)
  with assms show ?thesis
    by (auto simp: merge_adviser_def map_sum_def split: sum.splits dest: merge_node_frame)
next
  case (UpsertClient v m)
  with assms show ?thesis
    by (cases m) (auto dest: upsert_client_effect(1))
next
  case (LinkAdviser c a)
  with assms show ?thesis by (auto dest: link_adviser_frame)
next
  case (UpsertDependant p i m)
  with assms show ?thesis by (auto simp: upsert_dependant_def dest: upsert_linked_frame)
next
  case (UpsertProperty p i m)
  with assms show ?thesis by (auto simp: upsert_property_def dest: upsert_linked_frame)
next
  case (UpsertPension p i m)
  with assms show ?thesis using upsert_account_effect(1) [of "''Pension''" p i m g g'] by simp
next
  case (UpsertInvestment p i m)
  with assms show ?thesis using upsert_account_effect(1) [of "''Investment''" p i m g g'] by simp
next
  case (UpsertGoal p i m)
  with assms show ?thesis by (auto simp: upsert_goal_def dest: upsert_linked_frame)
qed

lemma touches_client_cases:
  assumes "''Client'' \<in> touches q" and "sent_for d q"
  obtains (C) v kvs where "q = UpsertClient v (JObj kvs)" "map_of kvs ''name'' = Some v"
      "map_of kvs ''source_document'' = Some (JStr d)"
    | (P) p j m where "q = UpsertPension p j m"
    | (I) p j m where "q = UpsertInvestment p j m"
proof (cases q)
  case (UpsertClient v m)
  with assms(2) show ?thesis by (cases m) (auto intro: C)
qed (use assms(1) in \<open>auto intro: P I\<close>)

text \<open>How one statement changes the Client nodes.\<close>

lemma execute_clients_named:
  assumes "execute q g = Inr g'" and "sent_for d q"
  shows "clients_named w g' = clients_named w g \<or>
         (clients_named w g = [] \<and> clients_named w g' = [length (nodes g)])"
proof (cases "''Client'' \<in> touches q")
  case False
  then show ?thesis using frame_match [OF execute_frame [OF assms]] by simp
next
  case True
  from True assms(2) show ?thesis
  proof (cases rule: touches_client_cases)
    case (C v kvs)
    then show ?thesis
      using assms(1) upsert_client_effect(2,3) [of v kvs g g'] by (cases "w = v") auto
  next
    case (P p j m)
    then show ?thesis
      using assms(1) upsert_account_effect(2,3) [of "''Pension''" p j m g g'] by (cases "w = p") auto
  next
    case (I p j m)
    then show ?thesis
      using assms(1) upsert_account_effect(2,3) [of "''Investment''" p j m g g'] by (cases "w = p") auto
  qed
qed

lemma execute_old_client:
  assumes "execute q g = Inr g'" and "sent_for d q"
    and "i < length (nodes g)" and "label (nodes g ! i) = ''Client''"
  shows "nodes g' ! i = nodes g ! i \<or>
         (\<exists>v kvs. q = UpsertClient v (JObj kvs) \<and> map_of kvs ''name'' = Some v \<and>
            map_of kvs ''source_document'' = Some (JStr d) \<and> i \<in> set (clients_named v g))"
proof (cases "''Client'' \<in> touches q")
  case False
  then show ?thesis using execute_frame [OF assms(1,2)] assms(3,4) by (auto simp: frame_def)
next
  case True
  from True assms(2) show ?thesis
  proof (cases rule: touches_client_cases)
    case (C v kvs)
    then show ?thesis
      using assms(1,3) upsert_client_effect(4) [of v kvs g g' i] by auto
  next
    case (P p j m)
    then show ?thesis
      using assms(1,3,4) upsert_account_effect(4) [of "''Pension''" p j m g g' i] by auto
  next
    case (I p j m)
    then show ?thesis
      using assms(1,3,4) upsert_account_effect(4) [of "''Investment''" p j m g g' i] by auto
  qed
qed

lemma execute_new_client:
  assumes "execute q g = Inr g'" and "sent_for d q"
    and "clients_named w g = []" and "clients_named w g' \<noteq> []"
  shows "(\<exists>m. q = UpsertClient w m) \<or> nodes g' ! length (nodes g) = Node ''Client'' [(''name'', w)]"
proof (cases "''Client'' \<in> touches q")
  case False
  then show ?thesis using frame_match [OF execute_frame [OF assms(1,2)]] assms(3,4) by simp
next
  case True
  from True assms(2) show ?thesis
  proof (cases rule: touches_client_cases)
    case (C v kvs)
    then show ?thesis
      using assms(1,3,4) upsert_client_effect(2) [of v kvs g g' w] by (cases "w = v") auto
  next
    case (P p j m)
    then show ?thesis
      using assms(1,3,4) upsert_account_effect(2,5) [of "''Pension''" p j m g g'] by (cases "w = p") auto
  next
    case (I p j m)
    then show ?thesis
      using assms(1,3,4) upsert_account_effect(2,5) [of "''Investment''" p j m g g'] by (cases "w = p") auto
  qed
qed

subsection \<open>run\<close>

lemma run_each_row: "run qs g = Inr g' \<Longrightarrow> each_row execute qs g = Inr g'"
  by (induction qs arbitrary: g) (auto split: if_splits sum.splits)

lemma run_invariant:
  assumes "run qs g = Inr g'" and "P g"
    and "\<And>q h h'. q \<in> set qs \<Longrightarrow> P h \<Longrightarrow> execute q h = Inr h' \<Longrightarrow> P h'"
  shows "P g'"
  using run_each_row [OF assms(1)] assms(2,3) by (rule each_row_invariant)

lemma run_establish:
  assumes "run qs g = Inr g'" and "q \<in> set qs" and "P g"
    and "\<And>y h h'. y \<in> set qs \<Longrightarrow> P h \<Longrightarrow> execute y h = Inr h' \<Longrightarrow> P h'"
    and "\<And>h h'. P h \<Longrightarrow> execute q h = Inr h' \<Longrightarrow> Q h'"
    and "\<And>y h h'. y \<in> set qs \<Longrightarrow> P h \<Longrightarrow> Q h \<Longrightarrow> execute y h = Inr h' \<Longrightarrow> Q h'"
  shows "Q g'"
  using run_each_row [OF assms(1)] assms(2-) by (rule each_row_establish)

lemma run_final_invariant:
  assumes "P g"
    and "\<And>q h h'. q \<in> set qs \<Longrightarrow> P h \<Longrightarrow> execute q h = Inr h' \<Longrightarrow> P h'"
  shows "P (final (run qs g))"
  using assms
proof (induction qs arbitrary: g)
  case Nil
  then show ?case by (simp add: final_def)
next
  case (Cons q qs)
  show ?case
  proof (cases "auth_ok g")
    case False
    then show ?thesis using Cons.prems(1) by (simp add: final_def)
  next
    case True
    show ?thesis
    proof (cases "execute q g")
      case (Inl e)
      then show ?thesis using True Cons.prems(1) by (simp add: final_def)
    next
      case (Inr h)
      then have "P h" using Cons.prems(2) [of q g h] Cons.prems(1) by simp
      then have "P (final (run qs h))"
        by (rule Cons.IH) (use Cons.prems(2) in auto)
      then show ?thesis using True Inr by simp
    qed
  qed
qed

lemma build_final:
  "final (build_graph_from_entities r e d g) = final (run (fst (statements r e d)) g)"
  by (auto simp: build_graph_from_entities_def final_def split: sum.splits option.splits)

lemma build_Inr:
  "build_graph_from_entities r e d g = Inr g' \<longleftrightarrow>
     run (fst (statements r e d)) g = Inr g' \<and> snd (statements r e d) = None"
  by (auto simp: build_graph_from_entities_def split: sum.splits option.splits)

subsection \<open>One statement and the Client nodes\<close>

lemma clients_unique_step:
  assumes "execute q g = Inr g'" and "sent_for d q" and "clients_unique g"
  shows "clients_unique g'"
  unfolding clients_unique_def
proof
  fix w
  from assms(3) have "length (clients_named w g) \<le> 1" by (simp add: clients_unique_def)
  then show "length (clients_named w g') \<le> 1"
    using execute_clients_named [OF assms(1,2), of w] by auto
qed

lemma clients_named_stable:
  assumes "execute q g = Inr g'" and "sent_for d q" and "clients_named w g \<noteq> []"
  shows "clients_named w g' = clients_named w g"
  using execute_clients_named [OF assms(1,2), of w] assms(3) by auto

lemma has_key_unique_value: "has_key l k v n \<Longrightarrow> has_key l k w n \<Longrightarrow> v = w"
  by (simp add: has_key_def)

lemma tagged_step:
  assumes "execute q g = Inr g'" and "sent_for d q" and "clients_named w g \<noteq> []" and "tagged d w g"
  shows "tagged d w g'"
  unfolding tagged_def list_all_iff
proof
  fix i assume "i \<in> set (clients_named w g')"
  then have i: "i \<in> set (clients_named w g)" and i': "i \<in> set (clients_named w g')"
    using clients_named_stable [OF assms(1,2,3)] by simp_all
  then have b: "i < length (nodes g)" "has_key ''Client'' ''name'' w (nodes g ! i)"
    by (simp_all add: match_nodes_iff)
  then have "label (nodes g ! i) = ''Client''" by (simp add: has_key_def)
  from execute_old_client [OF assms(1,2) b(1) this]
  show "map_of (props (nodes g' ! i)) ''source_document'' = Some (JStr d)"
  proof
    assume "nodes g' ! i = nodes g ! i"
    then show ?thesis using assms(4) i by (simp add: tagged_def list_all_iff)
  next
    assume "\<exists>v kvs. q = UpsertClient v (JObj kvs) \<and> map_of kvs ''name'' = Some v \<and>
            map_of kvs ''source_document'' = Some (JStr d) \<and> i \<in> set (clients_named v g)"
    then obtain v kvs where q: "q = UpsertClient v (JObj kvs)" "map_of kvs ''name'' = Some v"
      "map_of kvs ''source_document'' = Some (JStr d)" "i \<in> set (clients_named v g)"
      by blast
    then have "v = w" using b(2) has_key_unique_value by (auto simp: match_nodes_iff)
    then show ?thesis
      using upsert_client_effect(5) [of v kvs g g' i "''source_document''" "JStr d"] q assms(1) i'
      by simp
  qed
qed

lemma upsert_client_tagged:
  assumes "execute (UpsertClient w m) g = Inr g'" and "sent_for d (UpsertClient w m)"
  shows "clients_named w g' \<noteq> [] \<and> tagged d w g'"
proof -
  from assms(2) obtain kvs where m: "m = JObj kvs" "map_of kvs ''name'' = Some w"
    "map_of kvs ''source_document'' = Some (JStr d)"
    by (cases m) auto
  from assms(1) have u: "upsert_client w (JObj kvs) g = Inr g'" by (simp add: m)
  have "clients_named w g' \<noteq> []"
    using upsert_client_effect(3) [OF u m(2)] by auto
  moreover have "tagged d w g'"
    unfolding tagged_def list_all_iff
    using upsert_client_effect(5) [OF u m(2) _ m(3)] by simp
  ultimately show ?thesis by simp
qed

lemma bare_step:
  assumes "execute q g = Inr g'" and "sent_for d q" and "\<And>m. q \<noteq> UpsertClient w m" and "bare w g"
  shows "bare w g'"
  unfolding bare_def list_all_iff
proof
  fix i assume i': "i \<in> set (clients_named w g')"
  show "props (nodes g' ! i) = [(''name'', w)]"
  proof (cases "clients_named w g = []")
    case True
    then have "clients_named w g' = [length (nodes g)]"
      using execute_clients_named [OF assms(1,2), of w] i' by auto
    moreover have "nodes g' ! length (nodes g) = Node ''Client'' [(''name'', w)]"
    proof -
      have "clients_named w g' \<noteq> []" using i' by auto
      from execute_new_client [OF assms(1,2) True this] assms(3) show ?thesis by blast
    qed
    ultimately show ?thesis using i' by simp
  next
    case False
    then have i: "i \<in> set (clients_named w g)"
      using clients_named_stable [OF assms(1,2)] i' by simp
    then have b: "i < length (nodes g)" "has_key ''Client'' ''name'' w (nodes g ! i)"
      by (simp_all add: match_nodes_iff)
    then have "label (nodes g ! i) = ''Client''" by (simp add: has_key_def)
    from execute_old_client [OF assms(1,2) b(1) this]
    have "nodes g' ! i = nodes g ! i"
    proof
      assume "\<exists>v kvs. q = UpsertClient v (JObj kvs) \<and> map_of kvs ''name'' = Some v \<and>
            map_of kvs ''source_document'' = Some (JStr d) \<and> i \<in> set (clients_named v g)"
      then obtain v kvs where q: "q = UpsertClient v (JObj kvs)" "i \<in> set (clients_named v g)"
        by blast
      then have "v = w" using b(2) has_key_unique_value by (auto simp: match_nodes_iff)
      then show ?thesis using q assms(3) by simp
    qed
    then show ?thesis using assms(4) i by (simp add: bare_def list_all_iff)
  qed
qed

lemma account_creates_owner:
  assumes "execute q g = Inr g'" and "q = UpsertPension w i m \<or> q = UpsertInvestment w i m"
  shows "clients_named w g' \<noteq> []"
proof -
  have "clients_named w g' =
          (if clients_named w g = [] then [length (nodes g)] else clients_named w g)"
    using assms upsert_account_effect(3) [of "''Pension''" w i m g g']
      upsert_account_effect(3) [of "''Investment''" w i m g g']
    by auto
  then show ?thesis by (simp split: if_splits)
qed

subsection \<open>What is sent\<close>

lemma fst_emit [simp]: "fst (emit q) = [q]" and snd_emit [simp]: "snd (emit q) = None"
  by (simp_all add: emit_def)

lemma fst_skip [simp]: "fst skip = []" and snd_skip [simp]: "snd skip = None"
  by (simp_all add: skip_def)

lemma set_and_then: "set (fst (and_then a b)) \<subseteq> set (fst a) \<union> set (fst b)"
  by (auto simp: and_then_def split: option.splits)

lemma and_then_success:
  "snd (and_then a b) = None \<longleftrightarrow> snd a = None \<and> snd b = None"
  "snd a = None \<Longrightarrow> fst (and_then a b) = fst a @ fst b"
  by (auto simp: and_then_def split: option.splits)

lemma raising_Inr [simp]: "raising (Inr v) f = f v"
  and raising_Inl [simp]: "raising (Inl e) f = ([], Some e)"
  by (simp_all add: raising_def)

lemma set_for_each: "q \<in> set (fst (for_each f xs)) \<Longrightarrow> \<exists>x\<in>set xs. q \<in> set (fst (f x))"
  using set_and_then by (induction xs) fastforce+

lemma for_each_success:
  "snd (for_each f xs) = None \<Longrightarrow>
     (\<forall>x\<in>set xs. snd (f x) = None) \<and> fst (for_each f xs) = concat (map (\<lambda>x. fst (f x)) xs)"
  by (induction xs) (auto simp: and_then_success)

lemma map_of_filter_distinct:
  "distinct (map fst al) \<Longrightarrow>
   map_of (filter P al) k = (case map_of al k of None \<Rightarrow> None | Some v \<Rightarrow> if P (k, v) then Some v else None)"
proof (induction al)
  case Nil
  then show ?case by simp
next
  case (Cons kv al)
  then have "map_of al (fst kv) = None" by (simp add: map_of_eq_None_iff)
  with Cons show ?case by (cases kv) (auto split: option.splits)
qed

lemma client_props_name:
  "map_of (client_props d p (AList.clearjunk kvs)) ''name'' = Some (written_name p (JObj kvs))"
  by (auto simp: client_props_def Let_def AList.update_conv map_of_filter_distinct
      AList.map_of_clearjunk split: option.splits)

lemma client_props_document:
  "map_of (client_props d p items) ''source_document'' = Some (JStr d)"
  by (simp add: client_props_def Let_def AList.update_conv)

lemma client_name_written:
  "client_name (client_props d p (AList.clearjunk kvs)) = written_name p (JObj kvs)"
  by (simp add: client_name_def client_props_name)

lemma client_step_JObj:
  "client_step a d p (JObj kvs) =
     and_then (emit (UpsertClient (written_name p (JObj kvs)) (JObj (client_props d p (AList.clearjunk kvs)))))
       (if truthy a then emit (LinkAdviser (written_name p (JObj kvs)) a) else skip)"
  by (simp add: client_step_def Let_def client_name_written)

lemma client_step_sent:
  assumes "q \<in> set (fst (client_step a d p c))"
  shows "sent_for d q \<and> (\<forall>v m. q = UpsertClient v m \<longrightarrow> v = written_name p c)"
proof (cases c)
  case (JObj kvs)
  then show ?thesis
    using assms set_and_then [of "emit (UpsertClient (written_name p (JObj kvs))
        (JObj (client_props d p (AList.clearjunk kvs))))"
        "if truthy a then emit (LinkAdviser (written_name p (JObj kvs)) a) else skip"]
    by (auto simp: client_step_JObj client_props_name client_props_document split: if_splits)
qed (use assms in \<open>simp_all add: client_step_def\<close>)

lemma client_step_success:
  assumes "snd (client_step a d p c) = None"
  shows "\<exists>m. UpsertClient (written_name p c) m \<in> set (fst (client_step a d p c))"
proof (cases c)
  case (JObj kvs)
  then show ?thesis by (auto simp: client_step_JObj and_then_success)
qed (use assms in \<open>simp_all add: client_step_def\<close>)

lemma for_enumerate_sent:
  assumes "q \<in> set (fst (for_enumerate x k f))" and "\<And>p. q \<in> set (fst (f p)) \<Longrightarrow> P"
  shows P
  using assms
  by (auto simp: for_enumerate_def raising_def split: sum.splits dest!: set_for_each)

lemma rest_sent:
  assumes "q \<in> set (fst (for_enumerate e ''dependants'' (dependant_step r p))) \<or>
           q \<in> set (fst (upsert_assets r e p)) \<or> q \<in> set (fst (upsert_goals r e p))"
  shows "no_client q \<and> sent_for d q"
proof -
  have dep: "no_client q \<and> sent_for d q" if "q \<in> set (fst (dependant_step r p x))" for x
    using that by (auto simp: dependant_step_def no_client_def)
  have prp: "no_client q \<and> sent_for d q" if "q \<in> set (fst (property_step r p x))" for x
    using that by (auto simp: property_step_def no_client_def)
  have pen: "no_client q \<and> sent_for d q" if "q \<in> set (fst (pension_step r p x))" for x
    using that by (auto simp: pension_step_def no_client_def raising_def split: sum.splits)
  have inv: "no_client q \<and> sent_for d q" if "q \<in> set (fst (investment_step r p x))" for x
    using that by (auto simp: investment_step_def no_client_def raising_def split: sum.splits)
  have goal: "no_client q \<and> sent_for d q" if "q \<in> set (fst (upsert_goals r e p))"
    using that by (auto simp: upsert_goals_def no_client_def raising_def split: sum.splits if_splits)
  have assets: "no_client q \<and> sent_for d q" if "q \<in> set (fst (upsert_assets r e p))"
  proof -
    from that obtain a where "q \<in> set (fst (and_then (for_enumerate a ''properties'' (property_step r p))
      (and_then (for_enumerate a ''pensions'' (pension_step r p))
                (for_enumerate a ''investments'' (investment_step r p)))))"
      by (auto simp: upsert_assets_def raising_def split: sum.splits)
    then have "q \<in> set (fst (for_enumerate a ''properties'' (property_step r p))) \<or>
      q \<in> set (fst (for_enumerate a ''pensions'' (pension_step r p))) \<or>
      q \<in> set (fst (for_enumerate a ''investments'' (investment_step r p)))"
      using set_and_then by blast
    then show ?thesis
      using prp pen inv by (auto elim: for_enumerate_sent)
  qed
  show ?thesis using assms dep assets goal by (auto elim: for_enumerate_sent)
qed

lemma statements_shape:
  obtains (no_clients) "record_clients e = [] \<or> snd (statements r e d) \<noteq> None"
      "\<forall>q\<in>set (fst (statements r e d)). \<exists>a. q = MergeAdviser a"
  | (clients) a where "py_get e ''adviser'' JNull = Inr a"
      "statements r e d =
         and_then (if truthy a then emit (MergeAdviser a) else skip)
           (and_then (for_each (client_step a d (primary_name d e)) (record_clients e))
              (after_clients r e (primary_name d e)))"
proof (cases e)
  case (JObj ekvs)
  define a where "a = (case map_of ekvs ''adviser'' of None \<Rightarrow> JNull | Some v \<Rightarrow> v)"
  define c where "c = (case map_of ekvs ''clients'' of None \<Rightarrow> JArr [] | Some v \<Rightarrow> v)"
  have adv: "set (fst (if truthy a then emit (MergeAdviser a) else skip)) \<subseteq> {MergeAdviser a}"
    "snd (if truthy a then emit (MergeAdviser a) else skip) = None"
    by auto
  have st: "statements r e d =
      (if ekvs = [] then skip
       else and_then (if truthy a then emit (MergeAdviser a) else skip)
              (if \<not> truthy c then skip else upsert_clients r e d a c))"
    by (simp add: statements_def JObj a_def c_def)
  have rc: "record_clients e = (case c of JArr cs \<Rightarrow> cs | _ \<Rightarrow> [])"
    by (simp add: record_clients_def JObj c_def)
  show ?thesis
  proof (cases "ekvs = [] \<or> \<not> truthy c")
    case True
    then have "record_clients e = []"
      using rc by (cases c) (auto simp: c_def)
    moreover have "\<forall>q\<in>set (fst (statements r e d)). \<exists>a. q = MergeAdviser a"
      using True by (auto simp: st and_then_success)
    ultimately show ?thesis by (rule no_clients [OF disjI1])
  next
    case False
    then have st': "statements r e d =
      and_then (if truthy a then emit (MergeAdviser a) else skip) (upsert_clients r e d a c)"
      by (simp add: st)
    show ?thesis
    proof (cases "\<exists>kvs cs. c = JArr (JObj kvs # cs)")
      case True
      then obtain kvs cs where c: "c = JArr (JObj kvs # cs)" by blast
      define p where "p = (case map_of kvs ''name'' of None \<Rightarrow> JStr (''Unknown_'' @ d) | Some v \<Rightarrow> v)"
      have p1: "py_get (JObj kvs) ''name'' (JStr (''Unknown_'' @ d)) = Inr p"
        by (simp only: py_get.simps p_def)
      have rc': "record_clients e = JObj kvs # cs" by (simp add: rc c)
      have pn: "primary_name d e = p"
        unfolding primary_name_def rc' p_def by (simp only: list.case json.case)
      have "upsert_clients r e d a c =
          and_then (for_each (client_step a d (primary_name d e)) (record_clients e))
              (after_clients r e (primary_name d e))"
        by (simp only: upsert_clients_def c py_first.simps raising_Inr p1 py_iter.simps rc' pn
            after_clients_def)
      moreover have "py_get e ''adviser'' JNull = Inr a" by (simp add: JObj a_def)
      ultimately show ?thesis using st' by (intro clients) simp_all
    next
      case False
      have "upsert_clients r e d a c = ([], Some (case c of JObj _ \<Rightarrow> KeyError | JArr _ \<Rightarrow> AttributeError
            | JStr _ \<Rightarrow> AttributeError | _ \<Rightarrow> TypeError))"
      proof (cases c)
        case (JArr xs)
        with \<open>\<not> (ekvs = [] \<or> \<not> truthy c)\<close> obtain x xs' where xs: "xs = x # xs'" by (cases xs) auto
        with False JArr have "\<forall>kvs. x \<noteq> JObj kvs" by auto
        then show ?thesis by (cases x) (simp_all add: upsert_clients_def JArr xs)
      next
        case (JStr s)
        with \<open>\<not> (ekvs = [] \<or> \<not> truthy c)\<close> obtain ch s' where "s = ch # s'" by (cases s) auto
        then show ?thesis by (simp add: upsert_clients_def JStr)
      qed (use \<open>\<not> (ekvs = [] \<or> \<not> truthy c)\<close> in \<open>simp_all add: upsert_clients_def\<close>)
      then have "snd (statements r e d) \<noteq> None \<and> (\<forall>q\<in>set (fst (statements r e d)). \<exists>a. q = MergeAdviser a)"
        by (auto simp: st' and_then_def split: if_splits)
      then show ?thesis by (intro no_clients) simp_all
    qed
  qed
next
  case JNull
  then show ?thesis by (intro no_clients) (simp_all add: statements_def record_clients_def skip_def)
next
  case (JBool b)
  then show ?thesis by (intro no_clients) (simp_all add: statements_def record_clients_def skip_def)
next
  case (JInt i)
  then show ?thesis by (intro no_clients) (simp_all add: statements_def record_clients_def skip_def)
next
  case (JStr s)
  then show ?thesis by (intro no_clients) (simp_all add: statements_def record_clients_def skip_def)
next
  case (JArr xs)
  then show ?thesis by (intro no_clients) (simp_all add: statements_def record_clients_def skip_def)
qed

lemma after_clients_sent:
  assumes "q \<in> set (fst (after_clients r e p))"
  shows "no_client q \<and> sent_for d q"
proof -
  have "q \<in> set (fst (for_enumerate e ''dependants'' (dependant_step r p))) \<or>
        q \<in> set (fst (upsert_assets r e p)) \<or> q \<in> set (fst (upsert_goals r e p))"
    using assms set_and_then unfolding after_clients_def by blast
  then show ?thesis by (rule rest_sent)
qed

lemma statements_sent:
  assumes "q \<in> set (fst (statements r e d))"
  shows "sent_for d q \<and> (\<forall>v m. q = UpsertClient v m \<longrightarrow> v \<in> set (client_names d e))"
proof (cases rule: statements_shape [of e r d])
  case no_clients
  with assms show ?thesis by auto
next
  case (clients a)
  from assms have "q \<in> set (fst (if truthy a then emit (MergeAdviser a) else skip)) \<or>
      q \<in> set (fst (for_each (client_step a d (primary_name d e)) (record_clients e))) \<or>
      q \<in> set (fst (after_clients r e (primary_name d e)))"
    unfolding clients(2) using set_and_then by blast
  then show ?thesis
  proof (elim disjE)
    assume "q \<in> set (fst (if truthy a then emit (MergeAdviser a) else skip))"
    then show ?thesis by (auto split: if_splits)
  next
    assume "q \<in> set (fst (for_each (client_step a d (primary_name d e)) (record_clients e)))"
    then obtain c where "c \<in> set (record_clients e)" "q \<in> set (fst (client_step a d (primary_name d e) c))"
      using set_for_each by blast
    then show ?thesis using client_step_sent by (fastforce simp: client_names_def)
  next
    assume "q \<in> set (fst (after_clients r e (primary_name d e)))"
    then show ?thesis using after_clients_sent by (auto simp: no_client_def)
  qed
qed

lemma statements_success_clients:
  assumes "snd (statements r e d) = None" and "v \<in> set (client_names d e)"
  shows "\<exists>m. UpsertClient v m \<in> set (fst (statements r e d))"
proof (cases rule: statements_shape [of e r d])
  case no_clients
  with assms show ?thesis by (simp add: client_names_def)
next
  case (clients a)
  let ?A = "if truthy a then emit (MergeAdviser a) else skip"
  let ?C = "for_each (client_step a d (primary_name d e)) (record_clients e)"
  let ?R = "after_clients r e (primary_name d e)"
  from assms(1) have s: "snd ?A = None" "snd ?C = None" "snd ?R = None"
    unfolding clients(2) by (simp_all add: and_then_success)
  then have fst: "fst (statements r e d) = fst ?A @ fst ?C @ fst ?R"
    unfolding clients(2) by (simp add: and_then_success)
  from assms(2) obtain c where c: "c \<in> set (record_clients e)" "v = written_name (primary_name d e) c"
    by (auto simp: client_names_def)
  from for_each_success [OF s(2)] c(1)
  have cs: "snd (client_step a d (primary_name d e) c) = None"
    and sub: "set (fst (client_step a d (primary_name d e) c)) \<subseteq> set (fst ?C)"
    by auto
  from client_step_success [OF cs] obtain m
    where "UpsertClient v m \<in> set (fst (client_step a d (primary_name d e) c))"
    unfolding c(2) by blast
  then have "UpsertClient v m \<in> set (fst (statements r e d))"
    using sub unfolding fst by auto
  then show ?thesis ..
qed

subsection \<open>A whole call and the Client nodes\<close>

lemma build_clients_unique:
  assumes "clients_unique g"
  shows "clients_unique (final (build_graph_from_entities r e d g))"
  unfolding build_final
  using assms
  by (rule run_final_invariant) (use statements_sent clients_unique_step in blast)

lemma build_clients_stable:
  assumes "build_graph_from_entities r e d g = Inr g'" and "clients_named w g \<noteq> []"
  shows "clients_named w g' = clients_named w g"
proof -
  from assms(1) have run: "run (fst (statements r e d)) g = Inr g'" by (simp add: build_Inr)
  have "clients_named w g' = clients_named w g \<and> clients_named w g' \<noteq> []"
    using run
  proof (rule run_invariant [where P = "\<lambda>h. clients_named w h = clients_named w g \<and> clients_named w h \<noteq> []"])
    show "clients_named w g = clients_named w g \<and> clients_named w g \<noteq> []" using assms(2) by simp
  next
    fix q h h'
    assume "q \<in> set (fst (statements r e d))"
      "clients_named w h = clients_named w g \<and> clients_named w h \<noteq> []" "execute q h = Inr h'"
    then show "clients_named w h' = clients_named w g \<and> clients_named w h' \<noteq> []"
      using clients_named_stable statements_sent by metis
  qed
  then show ?thesis by simp
qed

lemma build_writes_clients:
  assumes "build_graph_from_entities r e d g = Inr g'" and "v \<in> set (client_names d e)"
  shows "clients_named v g' \<noteq> [] \<and> tagged d v g'"
proof -
  from assms(1) have run: "run (fst (statements r e d)) g = Inr g'"
    and ok: "snd (statements r e d) = None"
    by (simp_all add: build_Inr)
  from statements_success_clients [OF ok assms(2)]
  obtain m where m: "UpsertClient v m \<in> set (fst (statements r e d))" by blast
  show ?thesis
    using run m
  proof (rule run_establish [where P = "\<lambda>h. True"])
    fix h h' assume "execute (UpsertClient v m) h = Inr h'"
    then show "clients_named v h' \<noteq> [] \<and> tagged d v h'"
      using upsert_client_tagged statements_sent [OF m] by blast
  next
    fix y h h'
    assume "y \<in> set (fst (statements r e d))" "clients_named v h \<noteq> [] \<and> tagged d v h"
      "execute y h = Inr h'"
    then show "clients_named v h' \<noteq> [] \<and> tagged d v h'"
      using clients_named_stable tagged_step statements_sent by metis
  qed simp_all
qed

lemma repeated_build:
  assumes "repeated n (build_graph_from_entities r e d) g = Inr g'"
  shows "(clients_unique g \<longrightarrow> clients_unique g') \<and>
         (clients_named w g \<noteq> [] \<longrightarrow> clients_named w g' = clients_named w g)"
  using assms
proof (induction n arbitrary: g)
  case 0
  then show ?case by simp
next
  case (Suc n)
  then obtain h where h: "build_graph_from_entities r e d g = Inr h"
    and rest: "repeated n (build_graph_from_entities r e d) h = Inr g'"
    by (auto split: sum.splits)
  have "clients_unique g \<Longrightarrow> clients_unique h"
    using build_clients_unique [of g r e d] h by (simp add: final_def)
  moreover have "clients_named w g \<noteq> [] \<Longrightarrow> clients_named w h = clients_named w g"
    using build_clients_stable [OF h] .
  ultimately show ?case using Suc.IH [OF rest] by auto
qed

text \<open>
  C2. Start from a store in which no two Client nodes have the same name, and let the same
  record be processed \<open>n \<ge> 1\<close> times for the same document, every call returning. Then
  each client name of the record names exactly one Client node, and it is the node that
  the first call left under that name.
\<close>

theorem one_client_node_per_name:
  assumes "clients_unique g" and "0 < n"
    and "repeated n (build_graph_from_entities r e d) g = Inr g'"
  shows "\<forall>v\<in>set (client_names d e).
           length (clients_named v g') = 1 \<and>
           clients_named v g' = clients_named v (final (build_graph_from_entities r e d g))"
proof
  fix v assume v: "v \<in> set (client_names d e)"
  from assms(2,3) obtain m h where n: "n = Suc m" and h: "build_graph_from_entities r e d g = Inr h"
    and rest: "repeated m (build_graph_from_entities r e d) h = Inr g'"
    by (cases n) (auto split: sum.splits)
  have "clients_named v h \<noteq> []" using build_writes_clients [OF h v] by simp
  then have same: "clients_named v g' = clients_named v h" "clients_named v g' \<noteq> []"
    using repeated_build [OF rest, of v] by simp_all
  have "clients_unique g'"
    using repeated_build [OF assms(3), of v] assms(1) by simp
  then have "length (clients_named v g') \<le> 1" by (simp add: clients_unique_def)
  with same(2) have "length (clients_named v g') = 1" by (cases "clients_named v g'") auto
  then show "length (clients_named v g') = 1 \<and>
           clients_named v g' = clients_named v (final (build_graph_from_entities r e d g))"
    using same(1) h by (simp add: final_def)
qed

lemma corpus_clients_unique: "clients_unique g \<Longrightarrow> clients_unique (corpus r docs g)"
  unfolding corpus_def
  by (induction docs arbitrary: g) (simp_all add: build_clients_unique)

subsection \<open>Owners of pensions and investments\<close>

lemma for_enumerate_success:
  assumes "snd (for_enumerate x k f) = None" and "py_get x k (JArr []) = Inr (JArr ys)" and "y \<in> set ys"
  shows "\<exists>i. snd (f (i, y)) = None \<and> set (fst (f (i, y))) \<subseteq> set (fst (for_enumerate x k f))"
proof -
  from assms(3) obtain i where "i < length ys" "ys ! i = y" by (auto simp: in_set_conv_nth)
  then have "(i, y) \<in> set (List.enumerate 0 ys)" by (auto simp: in_set_enumerate_eq)
  moreover have "for_enumerate x k f = for_each f (List.enumerate 0 ys)"
    using assms(2) by (simp add: for_enumerate_def)
  ultimately show ?thesis using for_each_success [of f "List.enumerate 0 ys"] assms(1) by fastforce
qed

lemma statements_success_accounts:
  assumes "snd (statements r e d) = None" and "record_clients e \<noteq> []"
    and "c \<in> set (record_accounts e)" and "explicit_owner c = Some w"
  shows "\<exists>i m. UpsertPension w i m \<in> set (fst (statements r e d)) \<or>
               UpsertInvestment w i m \<in> set (fst (statements r e d))"
proof (cases rule: statements_shape [of e r d])
  case no_clients
  with assms show ?thesis by simp
next
  case (clients a)
  let ?p = "primary_name d e"
  let ?A = "if truthy a then emit (MergeAdviser a) else skip"
  let ?C = "for_each (client_step a d ?p) (record_clients e)"
  let ?D = "for_enumerate e ''dependants'' (dependant_step r ?p)"
  from assms(1) have s: "snd ?A = None" "snd ?C = None" "snd ?D = None"
    "snd (upsert_assets r e ?p) = None" "snd (upsert_goals r e ?p) = None"
    unfolding clients(2) after_clients_def by (simp_all add: and_then_success)
  then have fst: "fst (statements r e d) =
      fst ?A @ fst ?C @ fst ?D @ fst (upsert_assets r e ?p) @ fst (upsert_goals r e ?p)"
    unfolding clients(2) after_clients_def by (simp add: and_then_success)
  from assms(3) obtain as where as: "py_get e ''assets'' (JObj []) = Inr as"
    by (cases "py_get e ''assets'' (JObj [])") (auto simp: record_accounts_def)
  let ?P = "for_enumerate as ''properties'' (property_step r ?p)"
  let ?Pe = "for_enumerate as ''pensions'' (pension_step r ?p)"
  let ?I = "for_enumerate as ''investments'' (investment_step r ?p)"
  have ua: "upsert_assets r e ?p = and_then ?P (and_then ?Pe ?I)"
    by (simp add: upsert_assets_def as)
  with s(4) have sa: "snd ?P = None" "snd ?Pe = None" "snd ?I = None"
    by (simp_all add: and_then_success)
  then have fa: "fst (upsert_assets r e ?p) = fst ?P @ fst ?Pe @ fst ?I"
    by (simp add: ua and_then_success)
  from assms(4) obtain kvs where c: "c = JObj kvs" "map_of kvs ''owner'' = Some w"
    by (cases c) auto
  from assms(3) consider
      (pen) ps where "py_get as ''pensions'' (JArr []) = Inr (JArr ps)" "c \<in> set ps"
    | (inv) ivs where "py_get as ''investments'' (JArr []) = Inr (JArr ivs)" "c \<in> set ivs"
  proof -
    have "c \<in> set (case py_get as ''pensions'' (JArr []) of Inr (JArr ps) \<Rightarrow> ps | _ \<Rightarrow> []) \<or>
          c \<in> set (case py_get as ''investments'' (JArr []) of Inr (JArr ivs) \<Rightarrow> ivs | _ \<Rightarrow> [])"
      using assms(3) by (simp add: record_accounts_def as)
    then show ?thesis
    proof
      assume a: "c \<in> set (case py_get as ''pensions'' (JArr []) of Inr (JArr ps) \<Rightarrow> ps | _ \<Rightarrow> [])"
      then obtain x where x: "py_get as ''pensions'' (JArr []) = Inr x"
        by (cases "py_get as ''pensions'' (JArr [])") auto
      with a obtain ps where "x = JArr ps" by (cases x) auto
      with a x show ?thesis by (auto intro: pen)
    next
      assume a: "c \<in> set (case py_get as ''investments'' (JArr []) of Inr (JArr ivs) \<Rightarrow> ivs | _ \<Rightarrow> [])"
      then obtain x where x: "py_get as ''investments'' (JArr []) = Inr x"
        by (cases "py_get as ''investments'' (JArr [])") auto
      with a obtain ivs where "x = JArr ivs" by (cases x) auto
      with a x show ?thesis by (auto intro: inv)
    qed
  qed
  then show ?thesis
  proof cases
    case pen
    from for_enumerate_success [OF sa(2) pen]
    obtain i where "set (fst (pension_step r ?p (i, c))) \<subseteq> set (fst ?Pe)" by blast
    moreover have "fst (pension_step r ?p (i, c)) = [UpsertPension w (synthetic_id r w ''_pen_'' i) c]"
      by (simp add: pension_step_def c)
    ultimately have "UpsertPension w (synthetic_id r w ''_pen_'' i) c \<in> set (fst (statements r e d))"
      by (auto simp: fst fa)
    then show ?thesis by blast
  next
    case inv
    from for_enumerate_success [OF sa(3) inv]
    obtain i where "set (fst (investment_step r ?p (i, c))) \<subseteq> set (fst ?I)" by blast
    moreover have "fst (investment_step r ?p (i, c)) = [UpsertInvestment w (synthetic_id r w ''_inv_'' i) c]"
      by (simp add: investment_step_def c)
    ultimately have "UpsertInvestment w (synthetic_id r w ''_inv_'' i) c \<in> set (fst (statements r e d))"
      by (auto simp: fst fa)
    then show ?thesis by blast
  qed
qed

lemma clients_unique_empty: "clients_unique empty_graph"
  by (simp add: clients_unique_def match_nodes_def empty_graph_def)

theorem one_client_node_per_name_witness:
  "clients_unique empty_graph \<and>
   client_names ''letter1'' household = [JStr ''Jane Doe'', JStr ''John Doe''] \<and>
   length (clients_named (JStr ''Jane Doe'')
     (final (repeated 3 (build_graph_from_entities (\<lambda>v. []) household ''letter1'') empty_graph))) = 1 \<and>
   length (clients_named (JStr ''John Doe'')
     (final (repeated 3 (build_graph_from_entities (\<lambda>v. []) household ''letter1'') empty_graph))) = 1"
proof -
  have r: "repeated 3 (build_graph_from_entities (\<lambda>v. []) household ''letter1'') empty_graph =
    Inr (final (repeated 3 (build_graph_from_entities (\<lambda>v. []) household ''letter1'') empty_graph))"
    by code_simp
  have n: "client_names ''letter1'' household = [JStr ''Jane Doe'', JStr ''John Doe'']"
    by code_simp
  have pos: "0 < (3::nat)" by simp
  note all = one_client_node_per_name [OF clients_unique_empty pos r]
  have "JStr ''Jane Doe'' \<in> set (client_names ''letter1'' household)"
    and "JStr ''John Doe'' \<in> set (client_names ''letter1'' household)"
    by (simp_all add: n)
  then have "length (clients_named (JStr ''Jane Doe'')
     (final (repeated 3 (build_graph_from_entities (\<lambda>v. []) household ''letter1'') empty_graph))) = 1"
    and "length (clients_named (JStr ''John Doe'')
     (final (repeated 3 (build_graph_from_entities (\<lambda>v. []) household ''letter1'') empty_graph))) = 1"
    using all by blast+
  then show ?thesis using n clients_unique_empty by blast
qed

lemma client_props_member:
  assumes "k \<noteq> ''source_document''" and "k \<noteq> ''name''"
  shows "map_of (client_props d p (AList.clearjunk kvs)) k =
     (case map_of kvs k of None \<Rightarrow> None | Some x \<Rightarrow> if x = JNull then None else Some x)"
  using assms
  by (auto simp: client_props_def Let_def AList.update_conv map_of_filter_distinct
      AList.map_of_clearjunk split: option.splits)

lemma upsert_client_keeps:
  assumes "upsert_client v (JObj kvs) g = Inr g'" and "map_of kvs k = None" and "i < length (nodes g)"
  shows "map_of (props (nodes g' ! i)) k = map_of (props (nodes g ! i)) k"
proof -
  from assms(1) obtain g1 cs where mn: "merge_node ''Client'' ''name'' v g = Inr (g1, cs)"
    and er: "each_row (\<lambda>c. set_props c (JObj kvs)) cs g1 = Inr g'"
    by (auto simp: upsert_client_def split: sum.splits)
  have g1: "nodes g1 ! i = nodes g ! i"
    using merge_node_Inr [OF mn] assms(3) by (auto simp: nth_append)
  have "map_of (props (nodes g' ! i)) k = map_of (props (nodes g1 ! i)) k"
    using er
  proof (rule each_row_invariant [where P = "\<lambda>h. map_of (props (nodes h ! i)) k = map_of (props (nodes g1 ! i)) k"])
    show "map_of (props (nodes g1 ! i)) k = map_of (props (nodes g1 ! i)) k" by simp
  next
    fix c h h'
    assume Ph: "map_of (props (nodes h ! i)) k = map_of (props (nodes g1 ! i)) k"
      and sp: "set_props c (JObj kvs) h = Inr h'"
    note h' = set_props_JObj [OF sp]
    show "map_of (props (nodes h' ! i)) k = map_of (props (nodes g1 ! i)) k"
    proof (cases "c = i")
      case True
      show ?thesis
      proof (cases "i < length (nodes h)")
        case True
        with \<open>c = i\<close> show ?thesis using Ph assms(2) by (simp add: h' map_of_set_props)
      next
        case False
        then have "(nodes h)[i := n] = nodes h" for n by (simp add: list_update_beyond)
        then have "nodes h' = nodes h" using \<open>c = i\<close> by (simp add: h')
        then show ?thesis using Ph by simp
      qed
    next
      case False
      then show ?thesis using Ph by (simp add: h')
    qed
  qed
  then show ?thesis by (simp add: g1)
qed

lemma client_step_upsert:
  assumes "UpsertClient v m \<in> set (fst (client_step a d p c))"
  shows "\<exists>kvs. c = JObj kvs \<and> v = written_name p c \<and> m = JObj (client_props d p (AList.clearjunk kvs))"
proof (cases c)
  case (JObj kvs)
  then show ?thesis
    using assms set_and_then [of "emit (UpsertClient (written_name p (JObj kvs))
        (JObj (client_props d p (AList.clearjunk kvs))))"
        "if truthy a then emit (LinkAdviser (written_name p (JObj kvs)) a) else skip"]
    by (auto simp: client_step_JObj split: if_splits)
qed (use assms in \<open>simp_all add: client_step_def\<close>)

lemma statements_upsert_client:
  assumes "UpsertClient v m \<in> set (fst (statements r e d))"
  shows "\<exists>kvs. JObj kvs \<in> set (record_clients e) \<and> v = written_name (primary_name d e) (JObj kvs) \<and>
           m = JObj (client_props d (primary_name d e) (AList.clearjunk kvs))"
proof (cases rule: statements_shape [of e r d])
  case no_clients
  with assms show ?thesis by auto
next
  case (clients a)
  let ?q = "UpsertClient v m"
  from assms have "?q \<in> set (fst (if truthy a then emit (MergeAdviser a) else skip)) \<or>
      ?q \<in> set (fst (for_each (client_step a d (primary_name d e)) (record_clients e))) \<or>
      ?q \<in> set (fst (after_clients r e (primary_name d e)))"
    unfolding clients(2) using set_and_then by blast
  then show ?thesis
  proof (elim disjE)
    assume "?q \<in> set (fst (if truthy a then emit (MergeAdviser a) else skip))"
    then show ?thesis by (auto split: if_splits)
  next
    assume "?q \<in> set (fst (for_each (client_step a d (primary_name d e)) (record_clients e)))"
    then obtain c where "c \<in> set (record_clients e)" "?q \<in> set (fst (client_step a d (primary_name d e) c))"
      using set_for_each by blast
    then show ?thesis using client_step_upsert by blast
  next
    assume "?q \<in> set (fst (after_clients r e (primary_name d e)))"
    then show ?thesis using after_clients_sent [of ?q r e "primary_name d e" d] by (auto simp: no_client_def)
  qed
qed

lemma statements_success_client_entry:
  assumes "snd (statements r e d) = None" and "JObj kvs \<in> set (record_clients e)"
  shows "UpsertClient (written_name (primary_name d e) (JObj kvs))
           (JObj (client_props d (primary_name d e) (AList.clearjunk kvs))) \<in> set (fst (statements r e d))"
proof (cases rule: statements_shape [of e r d])
  case no_clients
  with assms show ?thesis by auto
next
  case (clients a)
  let ?A = "if truthy a then emit (MergeAdviser a) else skip"
  let ?C = "for_each (client_step a d (primary_name d e)) (record_clients e)"
  let ?R = "after_clients r e (primary_name d e)"
  from assms(1) have s: "snd ?A = None" "snd ?C = None" "snd ?R = None"
    unfolding clients(2) by (simp_all add: and_then_success)
  then have fst: "fst (statements r e d) = fst ?A @ fst ?C @ fst ?R"
    unfolding clients(2) by (simp add: and_then_success)
  from for_each_success [OF s(2)] assms(2)
  have sub: "set (fst (client_step a d (primary_name d e) (JObj kvs))) \<subseteq> set (fst ?C)"
    by auto
  have "UpsertClient (written_name (primary_name d e) (JObj kvs))
           (JObj (client_props d (primary_name d e) (AList.clearjunk kvs)))
          \<in> set (fst (client_step a d (primary_name d e) (JObj kvs)))"
    by (auto simp: client_step_JObj and_then_success)
  then show ?thesis using sub unfolding fst by auto
qed

text \<open>One statement and a property of the Client nodes of one name.\<close>

lemma carries_step:
  assumes "execute q g = Inr g'" and "sent_for d q" and "clients_named v g \<noteq> []" and "carries k x v g"
    and "x \<noteq> JNull"
    and "\<And>kvs. q = UpsertClient v (JObj kvs) \<Longrightarrow> map_of kvs k = None \<or> map_of kvs k = Some x"
  shows "carries k x v g'"
  unfolding carries_def list_all_iff
proof
  fix i assume "i \<in> set (clients_named v g')"
  then have i: "i \<in> set (clients_named v g)" and i': "i \<in> set (clients_named v g')"
    using clients_named_stable [OF assms(1,2,3)] by simp_all
  then have b: "i < length (nodes g)" "has_key ''Client'' ''name'' v (nodes g ! i)"
    by (simp_all add: match_nodes_iff)
  then have "label (nodes g ! i) = ''Client''" by (simp add: has_key_def)
  have old: "map_of (props (nodes g ! i)) k = Some x"
    using assms(4) i by (simp add: carries_def list_all_iff)
  from execute_old_client [OF assms(1,2) b(1) \<open>label (nodes g ! i) = ''Client''\<close>]
  show "map_of (props (nodes g' ! i)) k = Some x"
  proof
    assume "nodes g' ! i = nodes g ! i"
    then show ?thesis using old by simp
  next
    assume "\<exists>w kvs. q = UpsertClient w (JObj kvs) \<and> map_of kvs ''name'' = Some w \<and>
            map_of kvs ''source_document'' = Some (JStr d) \<and> i \<in> set (clients_named w g)"
    then obtain w kvs where q: "q = UpsertClient w (JObj kvs)" "map_of kvs ''name'' = Some w"
      "i \<in> set (clients_named w g)"
      by blast
    then have w: "w = v" using b(2) has_key_unique_value by (auto simp: match_nodes_iff)
    from assms(1) have u: "upsert_client v (JObj kvs) g = Inr g'" by (simp add: q w)
    from assms(6) [of kvs] q w consider "map_of kvs k = None" | "map_of kvs k = Some x" by auto
    then show ?thesis
    proof cases
      case 1
      from upsert_client_keeps [OF u 1 b(1)] old show ?thesis by simp
    next
      case 2
      from upsert_client_effect(5) [OF u _ i' 2 assms(5)] q w show ?thesis by simp
    qed
  qed
qed

lemma kept_step:
  assumes "execute q g = Inr g'" and "sent_for d q" and "i \<in> set (clients_named v g)"
    and "\<And>kvs. q = UpsertClient v (JObj kvs) \<Longrightarrow> map_of kvs k = None"
  shows "i \<in> set (clients_named v g') \<and> map_of (props (nodes g' ! i)) k = map_of (props (nodes g ! i)) k"
proof -
  from assms(3) have ne: "clients_named v g \<noteq> []" by auto
  have i': "i \<in> set (clients_named v g')"
    using clients_named_stable [OF assms(1,2) ne] assms(3) by simp
  from assms(3) have b: "i < length (nodes g)" "has_key ''Client'' ''name'' v (nodes g ! i)"
    by (simp_all add: match_nodes_iff)
  then have "label (nodes g ! i) = ''Client''" by (simp add: has_key_def)
  from execute_old_client [OF assms(1,2) b(1) this]
  have "map_of (props (nodes g' ! i)) k = map_of (props (nodes g ! i)) k"
  proof
    assume "nodes g' ! i = nodes g ! i"
    then show ?thesis by simp
  next
    assume "\<exists>w kvs. q = UpsertClient w (JObj kvs) \<and> map_of kvs ''name'' = Some w \<and>
            map_of kvs ''source_document'' = Some (JStr d) \<and> i \<in> set (clients_named w g)"
    then obtain w kvs where q: "q = UpsertClient w (JObj kvs)" "i \<in> set (clients_named w g)"
      by blast
    then have w: "w = v" using b(2) has_key_unique_value by (auto simp: match_nodes_iff)
    from assms(1) have u: "upsert_client v (JObj kvs) g = Inr g'" by (simp add: q w)
    from assms(4) [of kvs] q w have "map_of kvs k = None" by simp
    from upsert_client_keeps [OF u this b(1)] show ?thesis .
  qed
  with i' show ?thesis by simp
qed

lemma untouched_step:
  assumes "execute q g = Inr g'" and "sent_for d q" and "i \<in> set (clients_named v g)"
    and "\<And>m. q \<noteq> UpsertClient v m"
  shows "i \<in> set (clients_named v g') \<and> nodes g' ! i = nodes g ! i"
proof -
  from assms(3) have ne: "clients_named v g \<noteq> []" by auto
  have i': "i \<in> set (clients_named v g')"
    using clients_named_stable [OF assms(1,2) ne] assms(3) by simp
  from assms(3) have b: "i < length (nodes g)" "has_key ''Client'' ''name'' v (nodes g ! i)"
    by (simp_all add: match_nodes_iff)
  then have "label (nodes g ! i) = ''Client''" by (simp add: has_key_def)
  from execute_old_client [OF assms(1,2) b(1) this]
  have "nodes g' ! i = nodes g ! i"
  proof
    assume "\<exists>w kvs. q = UpsertClient w (JObj kvs) \<and> map_of kvs ''name'' = Some w \<and>
            map_of kvs ''source_document'' = Some (JStr d) \<and> i \<in> set (clients_named w g)"
    then obtain w kvs where q: "q = UpsertClient w (JObj kvs)" "i \<in> set (clients_named w g)"
      by blast
    then have "w = v" using b(2) has_key_unique_value by (auto simp: match_nodes_iff)
    then show ?thesis using q assms(4) by simp
  qed
  with i' show ?thesis by simp
qed

subsection \<open>A whole call and the properties of a client\<close>

lemma entries_named_iff:
  "c \<in> set (entries_named d e v) \<longleftrightarrow> c \<in> set (record_clients e) \<and> written_name (primary_name d e) c = v"
  by (simp add: entries_named_def)

lemma build_writes_member:
  assumes "build_graph_from_entities r e d g = Inr g'" and "gives d e v k x"
  shows "clients_named v g' \<noteq> [] \<and> carries k x v g'"
proof -
  let ?p = "primary_name d e"
  from assms(1) have run: "run (fst (statements r e d)) g = Inr g'"
    and ok: "snd (statements r e d) = None"
    by (simp_all add: build_Inr)
  from assms(2) have x: "x \<noteq> JNull" and k: "k \<noteq> ''name''" "k \<noteq> ''source_document''"
    and all: "\<And>c. c \<in> set (entries_named d e v) \<Longrightarrow>
        client_member c k = None \<or> client_member c k = Some JNull \<or> client_member c k = Some x"
    by (simp_all add: gives_def undisputed_def list_all_iff)
  from assms(2) obtain c where c: "c \<in> set (entries_named d e v)" "client_member c k = Some x"
    by (auto simp: gives_def list_ex_iff)
  from c(2) obtain kvs where kvs: "c = JObj kvs" "map_of kvs k = Some x" by (cases c) auto
  with c have in_rec: "JObj kvs \<in> set (record_clients e)" and wn: "written_name ?p (JObj kvs) = v"
    by (simp_all add: entries_named_iff)
  let ?m = "client_props d ?p (AList.clearjunk kvs)"
  have q: "UpsertClient v (JObj ?m) \<in> set (fst (statements r e d))"
    using statements_success_client_entry [OF ok in_rec] wn by simp
  have mk: "map_of ?m k = Some x"
    using client_props_member [OF k(2,1), of d ?p kvs] kvs(2) x by simp
  have mn: "map_of ?m ''name'' = Some v" using client_props_name [of d ?p kvs] wn by simp
  have agree: "map_of kvs' k = None \<or> map_of kvs' k = Some x"
    if "UpsertClient v (JObj kvs') \<in> set (fst (statements r e d))" for kvs'
  proof -
    from statements_upsert_client [OF that] obtain kv where kv: "JObj kv \<in> set (record_clients e)"
      "v = written_name ?p (JObj kv)" "kvs' = client_props d ?p (AList.clearjunk kv)"
      by auto
    then have "JObj kv \<in> set (entries_named d e v)" by (simp add: entries_named_iff)
    from all [OF this] show ?thesis
      unfolding kv(3) client_props_member [OF k(2,1)] by (auto split: option.splits)
  qed
  show ?thesis
    using run q
  proof (rule run_establish [where P = "\<lambda>h. True"])
    fix h h' assume ex: "execute (UpsertClient v (JObj ?m)) h = Inr h'"
    then have u: "upsert_client v (JObj ?m) h = Inr h'" by simp
    have "clients_named v h' \<noteq> []" using upsert_client_effect(3) [OF u mn] by auto
    moreover have "carries k x v h'"
      unfolding carries_def list_all_iff
      using upsert_client_effect(5) [OF u mn _ mk x] by simp
    ultimately show "clients_named v h' \<noteq> [] \<and> carries k x v h'" by simp
  next
    fix y h h'
    assume y: "y \<in> set (fst (statements r e d))" and Q: "clients_named v h \<noteq> [] \<and> carries k x v h"
      and ex: "execute y h = Inr h'"
    have sf: "sent_for d y" using statements_sent [OF y] by simp
    have "carries k x v h'"
      using ex sf _ _ x
    proof (rule carries_step)
      show "clients_named v h \<noteq> []" "carries k x v h" using Q by simp_all
    next
      fix kvs' assume "y = UpsertClient v (JObj kvs')"
      with y show "map_of kvs' k = None \<or> map_of kvs' k = Some x" using agree by simp
    qed
    moreover have "clients_named v h' \<noteq> []"
      using clients_named_stable [OF ex sf] Q by simp
    ultimately show "clients_named v h' \<noteq> [] \<and> carries k x v h'" by simp
  qed simp_all
qed

lemma build_keeps_member:
  assumes "build_graph_from_entities r e d g = Inr g'" and "silent d e v k"
    and "i \<in> set (clients_named v g)"
  shows "map_of (props (nodes g' ! i)) k = map_of (props (nodes g ! i)) k"
proof -
  let ?p = "primary_name d e"
  from assms(1) have run: "run (fst (statements r e d)) g = Inr g'" by (simp add: build_Inr)
  from assms(2) have k: "k \<noteq> ''name''" "k \<noteq> ''source_document''"
    and all: "\<And>c. c \<in> set (entries_named d e v) \<Longrightarrow>
        client_member c k = None \<or> client_member c k = Some JNull"
    by (simp_all add: silent_def list_all_iff)
  have none: "map_of kvs' k = None"
    if "UpsertClient v (JObj kvs') \<in> set (fst (statements r e d))" for kvs'
  proof -
    from statements_upsert_client [OF that] obtain kv where kv: "JObj kv \<in> set (record_clients e)"
      "v = written_name ?p (JObj kv)" "kvs' = client_props d ?p (AList.clearjunk kv)"
      by auto
    then have "JObj kv \<in> set (entries_named d e v)" by (simp add: entries_named_iff)
    from all [OF this] show ?thesis
      unfolding kv(3) client_props_member [OF k(2,1)] by (auto split: option.splits)
  qed
  define P where "P h \<longleftrightarrow> i \<in> set (clients_named v h) \<and>
     map_of (props (nodes h ! i)) k = map_of (props (nodes g ! i)) k" for h
  have "P g'"
    using run
  proof (rule run_invariant [where P = P])
    show "P g" using assms(3) by (simp add: P_def)
  next
    fix q h h'
    assume q: "q \<in> set (fst (statements r e d))" and Ph: "P h" and ex: "execute q h = Inr h'"
    have sf: "sent_for d q" using statements_sent [OF q] by simp
    have "i \<in> set (clients_named v h') \<and> map_of (props (nodes h' ! i)) k = map_of (props (nodes h ! i)) k"
      using ex sf
    proof (rule kept_step)
      show "i \<in> set (clients_named v h)" using Ph by (simp add: P_def)
    next
      fix kvs' assume "q = UpsertClient v (JObj kvs')"
      with q show "map_of kvs' k = None" using none by simp
    qed
    then show "P h'" using Ph by (simp add: P_def)
  qed
  then show ?thesis by (simp add: P_def)
qed

lemma build_untouched:
  assumes "build_graph_from_entities r e d g = Inr g'" and "v \<notin> set (client_names d e)"
    and "i \<in> set (clients_named v g)"
  shows "i \<in> set (clients_named v g') \<and> nodes g' ! i = nodes g ! i"
proof -
  from assms(1) have run: "run (fst (statements r e d)) g = Inr g'" by (simp add: build_Inr)
  define P where "P h \<longleftrightarrow> i \<in> set (clients_named v h) \<and> nodes h ! i = nodes g ! i" for h
  have "P g'"
    using run
  proof (rule run_invariant [where P = P])
    show "P g" using assms(3) by (simp add: P_def)
  next
    fix q h h'
    assume q: "q \<in> set (fst (statements r e d))" and Ph: "P h" and ex: "execute q h = Inr h'"
    have sf: "sent_for d q" using statements_sent [OF q] by simp
    have nc: "q \<noteq> UpsertClient v m" for m using statements_sent [OF q] assms(2) by auto
    have "i \<in> set (clients_named v h') \<and> nodes h' ! i = nodes h ! i"
      using ex sf _ nc
    proof (rule untouched_step)
      show "i \<in> set (clients_named v h)" using Ph by (simp add: P_def)
    qed
    then show "P h'" using Ph by (simp add: P_def)
  qed
  then show ?thesis by (simp add: P_def)
qed

text \<open>
  C3. When two records processed in sequence both have a client of name \<open>v\<close>, the
  second call writes the Client node that the first one wrote: the name \<open>v\<close> has one
  node, at the same position, before and after the second call. The second call overwrites
  the properties of that node with those of its record: the \<^verbatim>\<open>source_document\<close>, and
  every property that the second record gives the client, whatever the first call had
  written there; a property on which the second record is silent stays as the first call
  left it. And whatever documents are processed, whether their calls return or raise, no
  two Client nodes of the store get the same name.
\<close>

theorem same_name_same_client_node:
  assumes "clients_unique g"
    and "build_graph_from_entities r e1 d1 g = Inr g1"
    and "build_graph_from_entities r e2 d2 g1 = Inr g2"
    and "v \<in> set (client_names d1 e1)" and "v \<in> set (client_names d2 e2)"
  shows "(\<exists>i. clients_named v g1 = [i] \<and> clients_named v g2 = [i] \<and>
              map_of (props (nodes g1 ! i)) ''source_document'' = Some (JStr d1) \<and>
              map_of (props (nodes g2 ! i)) ''source_document'' = Some (JStr d2) \<and>
              (\<forall>k x. gives d1 e1 v k x \<longrightarrow> map_of (props (nodes g1 ! i)) k = Some x) \<and>
              (\<forall>k x. gives d2 e2 v k x \<longrightarrow> map_of (props (nodes g2 ! i)) k = Some x) \<and>
              (\<forall>k. silent d2 e2 v k \<longrightarrow>
                 map_of (props (nodes g2 ! i)) k = map_of (props (nodes g1 ! i)) k)) \<and>
         clients_unique (corpus r docs g)"
proof -
  have u1: "clients_unique g1"
    using build_clients_unique [OF assms(1), of r e1 d1] assms(2) by (simp add: final_def)
  have w1: "clients_named v g1 \<noteq> []" "tagged d1 v g1"
    using build_writes_clients [OF assms(2,4)] by simp_all
  from u1 have "length (clients_named v g1) \<le> 1" by (simp add: clients_unique_def)
  with w1(1) obtain i where i: "clients_named v g1 = [i]"
    by (cases "clients_named v g1") auto
  have s2: "clients_named v g2 = [i]"
    using build_clients_stable [OF assms(3) w1(1)] i by simp
  have "tagged d2 v g2" using build_writes_clients [OF assms(3,5)] by simp
  then have t2: "map_of (props (nodes g2 ! i)) ''source_document'' = Some (JStr d2)"
    by (simp add: tagged_def s2)
  have t1: "map_of (props (nodes g1 ! i)) ''source_document'' = Some (JStr d1)"
    using w1(2) by (simp add: tagged_def i)
  have p1: "map_of (props (nodes g1 ! i)) k = Some x" if "gives d1 e1 v k x" for k x
    using build_writes_member [OF assms(2) that] by (simp add: carries_def i)
  have p2: "map_of (props (nodes g2 ! i)) k = Some x" if "gives d2 e2 v k x" for k x
    using build_writes_member [OF assms(3) that] by (simp add: carries_def s2)
  have k2: "map_of (props (nodes g2 ! i)) k = map_of (props (nodes g1 ! i)) k" if "silent d2 e2 v k" for k
    using build_keeps_member [OF assms(3) that, of i] by (simp add: i)
  from i s2 t1 t2 p1 p2 k2 have
    "\<exists>i. clients_named v g1 = [i] \<and> clients_named v g2 = [i] \<and>
              map_of (props (nodes g1 ! i)) ''source_document'' = Some (JStr d1) \<and>
              map_of (props (nodes g2 ! i)) ''source_document'' = Some (JStr d2) \<and>
              (\<forall>k x. gives d1 e1 v k x \<longrightarrow> map_of (props (nodes g1 ! i)) k = Some x) \<and>
              (\<forall>k x. gives d2 e2 v k x \<longrightarrow> map_of (props (nodes g2 ! i)) k = Some x) \<and>
              (\<forall>k. silent d2 e2 v k \<longrightarrow>
                 map_of (props (nodes g2 ! i)) k = map_of (props (nodes g1 ! i)) k)"
    by blast
  then show ?thesis using corpus_clients_unique [OF assms(1)] by simp
qed

text \<open>
  C9, as amended. Let the record have at least one client and its call return. For a pension
  or an investment with an owner string, the call leaves a Client node of that name in the
  store, whatever the store held before, and exactly one when no two Client nodes had the
  same name. When the owner is not a client name of the record: if the store had a Client
  node of that name, the call writes nothing on it; if the store had none, the call leaves
  exactly one, with the name as its only property: it has no \<^verbatim>\<open>source_document\<close>.
\<close>

theorem account_owner_becomes_client:
  assumes "build_graph_from_entities r e d g = Inr g'" and "record_clients e \<noteq> []"
    and "c \<in> set (record_accounts e)" and "explicit_owner c = Some (JStr s)"
  shows "clients_named (JStr s) g' \<noteq> [] \<and>
         (clients_unique g \<longrightarrow> length (clients_named (JStr s) g') = 1) \<and>
         (JStr s \<notin> set (client_names d e) \<longrightarrow>
            (if clients_named (JStr s) g = []
             then \<exists>i. clients_named (JStr s) g' = [i] \<and> props (nodes g' ! i) = [(''name'', JStr s)] \<and>
                      map_of (props (nodes g' ! i)) ''source_document'' = None
             else clients_named (JStr s) g' = clients_named (JStr s) g \<and>
                  list_all (\<lambda>i. nodes g' ! i = nodes g ! i) (clients_named (JStr s) g)))"
proof -
  let ?w = "JStr s"
  from assms(1) have run: "run (fst (statements r e d)) g = Inr g'"
    and ok: "snd (statements r e d) = None"
    by (simp_all add: build_Inr)
  from statements_success_accounts [OF ok assms(2,3,4)]
  obtain q i m where q: "q \<in> set (fst (statements r e d))"
    "q = UpsertPension ?w i m \<or> q = UpsertInvestment ?w i m"
    by blast
  have ne: "clients_named ?w g' \<noteq> []"
    using run q(1)
  proof (rule run_establish [where P = "\<lambda>h. True"])
    fix h h' assume "execute q h = Inr h'"
    then show "clients_named ?w h' \<noteq> []" using account_creates_owner q(2) by blast
  next
    fix y h h'
    assume "y \<in> set (fst (statements r e d))" "clients_named ?w h \<noteq> []" "execute y h = Inr h'"
    then show "clients_named ?w h' \<noteq> []"
      using clients_named_stable statements_sent by metis
  qed simp_all
  have one: "length (clients_named ?w g') = 1" if "clients_unique g"
  proof -
    have "clients_unique g'"
      using build_clients_unique [OF that, of r e d] assms(1) by (simp add: final_def)
    then have "length (clients_named ?w g') \<le> 1" by (simp add: clients_unique_def)
    with ne show ?thesis by (cases "clients_named ?w g'") auto
  qed
  have new: "\<exists>i. clients_named ?w g' = [i] \<and> props (nodes g' ! i) = [(''name'', ?w)] \<and>
                 map_of (props (nodes g' ! i)) ''source_document'' = None"
    if foreign: "?w \<notin> set (client_names d e)" and none: "clients_named ?w g = []"
  proof -
    define P where "P h \<longleftrightarrow> bare ?w h \<and> length (clients_named ?w h) \<le> 1" for h
    have nc: "y \<noteq> UpsertClient ?w m'" if "y \<in> set (fst (statements r e d))" for y m'
      using statements_sent [OF that] foreign by auto
    have pres: "P h'" if "y \<in> set (fst (statements r e d))" "P h" "execute y h = Inr h'" for y h h'
    proof -
      have sf: "sent_for d y" using statements_sent [OF that(1)] by simp
      have "bare ?w h" using that(2) by (simp add: P_def)
      with that(3) sf nc [OF that(1)] have "bare ?w h'" by (rule bare_step)
      moreover have "length (clients_named ?w h') \<le> 1"
        using execute_clients_named [OF that(3), of d ?w] statements_sent [OF that(1)] that(2)
        by (auto simp: P_def)
      ultimately show ?thesis by (simp add: P_def)
    qed
    have "P g" using none by (simp add: P_def bare_def)
    have Pg': "P g'" using run \<open>P g\<close> pres by (rule run_invariant)
    with ne obtain j where j: "clients_named ?w g' = [j]"
      by (cases "clients_named ?w g'") (auto simp: P_def)
    with Pg' have "props (nodes g' ! j) = [(''name'', ?w)]" by (simp add: P_def bare_def)
    then show ?thesis using j by simp
  qed
  have old: "clients_named ?w g' = clients_named ?w g \<and>
             list_all (\<lambda>i. nodes g' ! i = nodes g ! i) (clients_named ?w g)"
    if foreign: "?w \<notin> set (client_names d e)" and some: "clients_named ?w g \<noteq> []"
    using build_clients_stable [OF assms(1) some] build_untouched [OF assms(1) foreign]
    by (simp add: list_all_iff)
  show ?thesis using ne one new old by simp
qed

text \<open>
  C5, as amended. A client with no name, or with a null name, is written under the name of
  the primary client: the statement sent for it merges on the primary name, with the
  primary name, the document tag and the members of the client as properties. After the
  call the node of the primary name is tagged with the document and has every property of
  the nameless client that no other entry written under that name disputes. The primary
  name is the placeholder \<^verbatim>\<open>Unknown_\<close> followed by the document name only when the
  first client has no \<^verbatim>\<open>name\<close> member.
\<close>

theorem nameless_client_written_under_primary_name:
  assumes "build_graph_from_entities r e d g = Inr g'"
    and "JObj kvs \<in> set (record_clients e)"
    and "map_of kvs ''name'' = None \<or> map_of kvs ''name'' = Some JNull"
  shows "UpsertClient (primary_name d e) (JObj (client_props d (primary_name d e) (AList.clearjunk kvs)))
           \<in> set (fst (statements r e d)) \<and>
         map_of (client_props d (primary_name d e) (AList.clearjunk kvs)) ''name'' = Some (primary_name d e) \<and>
         map_of (client_props d (primary_name d e) (AList.clearjunk kvs)) ''source_document'' = Some (JStr d) \<and>
         clients_named (primary_name d e) g' \<noteq> [] \<and> tagged d (primary_name d e) g' \<and>
         (\<forall>k x. map_of kvs k = Some x \<and> x \<noteq> JNull \<and> k \<noteq> ''name'' \<and> k \<noteq> ''source_document'' \<and>
                 undisputed d e (primary_name d e) k x \<longrightarrow>
                   map_of (client_props d (primary_name d e) (AList.clearjunk kvs)) k = Some x \<and>
                   carries k x (primary_name d e) g') \<and>
         (\<forall>first rest. record_clients e = JObj first # rest \<longrightarrow> map_of first ''name'' = None \<longrightarrow>
            primary_name d e = JStr (''Unknown_'' @ d))"
proof -
  let ?p = "primary_name d e"
  let ?m = "client_props d ?p (AList.clearjunk kvs)"
  from assms(1) have ok: "snd (statements r e d) = None" by (simp add: build_Inr)
  have w: "written_name ?p (JObj kvs) = ?p"
    using assms(3) by auto
  have sent: "UpsertClient ?p (JObj ?m) \<in> set (fst (statements r e d))"
    using statements_success_client_entry [OF ok assms(2)] w by simp
  have nm: "map_of ?m ''name'' = Some ?p" using client_props_name [of d ?p kvs] w by simp
  have sd: "map_of ?m ''source_document'' = Some (JStr d)" by (rule client_props_document)
  have "?p \<in> set (client_names d e)"
    using assms(2) w by (force simp: client_names_def)
  from build_writes_clients [OF assms(1) this]
  have wr: "clients_named ?p g' \<noteq> []" "tagged d ?p g'" by simp_all
  have mem: "map_of ?m k = Some x \<and> carries k x ?p g'"
    if "map_of kvs k = Some x" "x \<noteq> JNull" "k \<noteq> ''name''" "k \<noteq> ''source_document''"
      "undisputed d e ?p k x" for k x
  proof -
    have "JObj kvs \<in> set (entries_named d e ?p)" using assms(2) w by (simp add: entries_named_iff)
    moreover have "client_member (JObj kvs) k = Some x" using that(1) by simp
    ultimately have "\<exists>c\<in>set (entries_named d e ?p). client_member c k = Some x" by blast
    then have "gives d e ?p k x"
      using that by (simp add: gives_def list_ex_iff)
    from build_writes_member [OF assms(1) this] client_props_member [OF that(4,3), of d ?p kvs] that(1,2)
    show ?thesis by simp
  qed
  have ph: "?p = JStr (''Unknown_'' @ d)"
    if "record_clients e = JObj first # rest" "map_of first ''name'' = None" for first rest
    using that by (simp add: primary_name_def)
  from sent nm sd wr mem ph show ?thesis by blast
qed

theorem same_name_same_client_node_witness:
  "JStr ''Jane Doe'' \<in> set (client_names ''letter1'' intake) \<and>
   JStr ''Jane Doe'' \<in> set (client_names ''letter2'' review) \<and>
   gives ''letter1'' intake (JStr ''Jane Doe'') ''age'' (JInt 41) \<and>
   gives ''letter1'' intake (JStr ''Jane Doe'') ''city'' (JStr ''Leeds'') \<and>
   gives ''letter2'' review (JStr ''Jane Doe'') ''age'' (JInt 42) \<and>
   silent ''letter2'' review (JStr ''Jane Doe'') ''city'' \<and>
   clients_named (JStr ''Jane Doe'')
     (final (build_graph_from_entities (\<lambda>v. []) intake ''letter1'' empty_graph)) = [0] \<and>
   clients_named (JStr ''Jane Doe'')
     (final (build_graph_from_entities (\<lambda>v. []) review ''letter2''
        (final (build_graph_from_entities (\<lambda>v. []) intake ''letter1'' empty_graph)))) = [0] \<and>
   map_of (props (nodes
     (final (build_graph_from_entities (\<lambda>v. []) intake ''letter1'' empty_graph)) ! 0))
     ''age'' = Some (JInt 41) \<and>
   map_of (props (nodes
     (final (build_graph_from_entities (\<lambda>v. []) review ''letter2''
        (final (build_graph_from_entities (\<lambda>v. []) intake ''letter1'' empty_graph)))) ! 0))
     ''age'' = Some (JInt 42) \<and>
   map_of (props (nodes
     (final (build_graph_from_entities (\<lambda>v. []) review ''letter2''
        (final (build_graph_from_entities (\<lambda>v. []) intake ''letter1'' empty_graph)))) ! 0))
     ''city'' = Some (JStr ''Leeds'') \<and>
   map_of (props (nodes
     (final (build_graph_from_entities (\<lambda>v. []) review ''letter2''
        (final (build_graph_from_entities (\<lambda>v. []) intake ''letter1'' empty_graph)))) ! 0))
     ''source_document'' = Some (JStr ''letter2'')"
proof -
  let ?v = "JStr ''Jane Doe''"
  let ?g1 = "final (build_graph_from_entities (\<lambda>v. []) intake ''letter1'' empty_graph)"
  let ?g2 = "final (build_graph_from_entities (\<lambda>v. []) review ''letter2'' ?g1)"
  have b1: "build_graph_from_entities (\<lambda>v. []) intake ''letter1'' empty_graph = Inr ?g1"
    by code_simp
  have b2: "build_graph_from_entities (\<lambda>v. []) review ''letter2'' ?g1 = Inr ?g2"
    by code_simp
  have n1: "?v \<in> set (client_names ''letter1'' intake)" by code_simp
  have n2: "?v \<in> set (client_names ''letter2'' review)" by code_simp
  have a1: "gives ''letter1'' intake ?v ''age'' (JInt 41)" by code_simp
  have c1: "gives ''letter1'' intake ?v ''city'' (JStr ''Leeds'')" by code_simp
  have a2: "gives ''letter2'' review ?v ''age'' (JInt 42)" by code_simp
  have s2: "silent ''letter2'' review ?v ''city''" by code_simp
  have i: "clients_named ?v ?g1 = [0]" by code_simp
  from same_name_same_client_node [OF clients_unique_empty b1 b2 n1 n2, of "[]"]
  obtain j where j: "clients_named ?v ?g1 = [j]" "clients_named ?v ?g2 = [j]"
    "map_of (props (nodes ?g2 ! j)) ''source_document'' = Some (JStr ''letter2'')"
    and p1: "\<And>k x. gives ''letter1'' intake ?v k x \<Longrightarrow> map_of (props (nodes ?g1 ! j)) k = Some x"
    and p2: "\<And>k x. gives ''letter2'' review ?v k x \<Longrightarrow> map_of (props (nodes ?g2 ! j)) k = Some x"
    and k2: "\<And>k. silent ''letter2'' review ?v k \<Longrightarrow>
        map_of (props (nodes ?g2 ! j)) k = map_of (props (nodes ?g1 ! j)) k"
    by blast
  from j(1) i have j0: "j = 0" by simp
  note r = j(2,3) p1 [OF a1] p1 [OF c1] p2 [OF a2] k2 [OF s2]
  show ?thesis
    using n1 n2 a1 c1 a2 s2 i r unfolding j0 by simp
qed

theorem account_owner_becomes_client_witness:
  "record_clients household \<noteq> [] \<and>
   JStr ''Mary Major'' \<notin> set (client_names ''letter1'' household) \<and>
   clients_named (JStr ''Mary Major'') empty_graph = [] \<and>
   clients_named (JStr ''Mary Major'')
     (final (build_graph_from_entities (\<lambda>v. []) household ''letter1'' empty_graph)) = [8] \<and>
   props (nodes (final (build_graph_from_entities (\<lambda>v. []) household ''letter1'' empty_graph)) ! 8) =
     [(''name'', JStr ''Mary Major'')] \<and>
   record_clients foreign_owner \<noteq> [] \<and>
   JStr ''Bob'' \<notin> set (client_names ''letter1'' foreign_owner) \<and>
   clients_unique bob_known \<and>
   clients_named (JStr ''Bob'') bob_known = [0] \<and>
   clients_named (JStr ''Bob'')
     (final (build_graph_from_entities (\<lambda>v. []) foreign_owner ''letter1'' bob_known)) = [0] \<and>
   nodes (final (build_graph_from_entities (\<lambda>v. []) foreign_owner ''letter1'' bob_known)) ! 0 =
     nodes bob_known ! 0"
proof -
  let ?g1 = "final (build_graph_from_entities (\<lambda>v. []) household ''letter1'' empty_graph)"
  let ?c = "JObj [(''type'', JStr ''SIPP''), (''owner'', JStr ''Mary Major'')]"
  have b1: "build_graph_from_entities (\<lambda>v. []) household ''letter1'' empty_graph = Inr ?g1"
    by code_simp
  have rc: "record_clients household \<noteq> []" by code_simp
  have c: "?c \<in> set (record_accounts household)" by code_simp
  have o: "explicit_owner ?c = Some (JStr ''Mary Major'')" by code_simp
  have n: "JStr ''Mary Major'' \<notin> set (client_names ''letter1'' household)" by code_simp
  have g: "clients_named (JStr ''Mary Major'') empty_graph = []" by code_simp
  have i: "clients_named (JStr ''Mary Major'') ?g1 = [8]" by code_simp
  from account_owner_becomes_client [OF b1 rc c o] n g
  have "\<exists>i. clients_named (JStr ''Mary Major'') ?g1 = [i] \<and>
            props (nodes ?g1 ! i) = [(''name'', JStr ''Mary Major'')] \<and>
            map_of (props (nodes ?g1 ! i)) ''source_document'' = None"
    by simp
  with i have first: "props (nodes ?g1 ! 8) = [(''name'', JStr ''Mary Major'')]" by simp
  let ?g2 = "final (build_graph_from_entities (\<lambda>v. []) foreign_owner ''letter1'' bob_known)"
  let ?b = "JObj [(''owner'', JStr ''Bob'')]"
  have b2: "build_graph_from_entities (\<lambda>v. []) foreign_owner ''letter1'' bob_known = Inr ?g2"
    by code_simp
  have rc2: "record_clients foreign_owner \<noteq> []" by code_simp
  have c2: "?b \<in> set (record_accounts foreign_owner)" by code_simp
  have o2: "explicit_owner ?b = Some (JStr ''Bob'')" by code_simp
  have n2: "JStr ''Bob'' \<notin> set (client_names ''letter1'' foreign_owner)" by code_simp
  have g2: "clients_named (JStr ''Bob'') bob_known = [0]" by code_simp
  have u2: "clients_unique bob_known"
    unfolding clients_unique_def
  proof
    fix v show "length (clients_named v bob_known) \<le> 1"
      by (simp add: match_nodes_def bob_known_def empty_graph_def)
  qed
  from account_owner_becomes_client [OF b2 rc2 c2 o2] n2 g2
  have second: "clients_named (JStr ''Bob'') ?g2 = [0]" "nodes ?g2 ! 0 = nodes bob_known ! 0"
    by simp_all
  show ?thesis using rc n g i first rc2 n2 u2 g2 second by simp
qed

text \<open>
  C9 as stated fails in three ways. A record without clients writes nothing, so the owner
  Bob of its pension gets no node. A record whose call raises before the pensions, here on
  dependants that are not a list, leaves no node for the owner either. And when the store
  already has a Client node of the owner's name, the call leaves that node as it was, with
  the \<^verbatim>\<open>source_document\<close> that an earlier document wrote on it.
\<close>

theorem account_owner_without_clients_counterexample:
  "JObj [(''owner'', JStr ''Bob'')] \<in> set (record_accounts orphan_pension) \<and>
   explicit_owner (JObj [(''owner'', JStr ''Bob'')]) = Some (JStr ''Bob'') \<and>
   client_names ''letter1'' orphan_pension = [] \<and>
   build_graph_from_entities (\<lambda>v. []) orphan_pension ''letter1'' empty_graph = Inr empty_graph \<and>
   clients_named (JStr ''Bob'') empty_graph = [] \<and>
   JObj [(''owner'', JStr ''Bob'')] \<in> set (record_accounts interrupted) \<and>
   client_names ''letter1'' interrupted = [JStr ''Alice''] \<and>
   raises (build_graph_from_entities (\<lambda>v. []) interrupted ''letter1'' empty_graph) \<and>
   clients_named (JStr ''Bob'')
     (final (build_graph_from_entities (\<lambda>v. []) interrupted ''letter1'' empty_graph)) = [] \<and>
   JObj [(''owner'', JStr ''Bob'')] \<in> set (record_accounts foreign_owner) \<and>
   client_names ''letter1'' foreign_owner = [JStr ''Alice''] \<and>
   \<not> raises (build_graph_from_entities (\<lambda>v. []) foreign_owner ''letter1'' bob_known) \<and>
   clients_named (JStr ''Bob'')
     (final (build_graph_from_entities (\<lambda>v. []) foreign_owner ''letter1'' bob_known)) = [0] \<and>
   map_of (props (nodes
     (final (build_graph_from_entities (\<lambda>v. []) foreign_owner ''letter1'' bob_known)) ! 0))
     ''source_document'' = Some (JStr ''letter0'')"
  by code_simp

theorem nameless_client_written_under_primary_name_witness:
  "JObj [(''age'', JInt 5)] \<in> set (record_clients nameless) \<and>
   primary_name ''letter1'' nameless = JStr ''Alice'' \<and>
   undisputed ''letter1'' nameless (JStr ''Alice'') ''age'' (JInt 5) \<and>
   UpsertClient (JStr ''Alice'')
     (JObj (client_props ''letter1'' (JStr ''Alice'') (AList.clearjunk [(''age'', JInt 5)])))
     \<in> set (fst (statements (\<lambda>v. []) nameless ''letter1'')) \<and>
   clients_named (JStr ''Alice'')
     (final (build_graph_from_entities (\<lambda>v. []) nameless ''letter1'' empty_graph)) \<noteq> [] \<and>
   tagged ''letter1'' (JStr ''Alice'')
     (final (build_graph_from_entities (\<lambda>v. []) nameless ''letter1'' empty_graph)) \<and>
   carries ''age'' (JInt 5) (JStr ''Alice'')
     (final (build_graph_from_entities (\<lambda>v. []) nameless ''letter1'' empty_graph))"
proof -
  let ?g1 = "final (build_graph_from_entities (\<lambda>v. []) nameless ''letter1'' empty_graph)"
  have b1: "build_graph_from_entities (\<lambda>v. []) nameless ''letter1'' empty_graph = Inr ?g1"
    by code_simp
  have c: "JObj [(''age'', JInt 5)] \<in> set (record_clients nameless)" by code_simp
  have p: "primary_name ''letter1'' nameless = JStr ''Alice''" by code_simp
  have u: "undisputed ''letter1'' nameless (JStr ''Alice'') ''age'' (JInt 5)" by code_simp
  have nn: "map_of [(''age'', JInt 5)] ''name'' = None \<or> map_of [(''age'', JInt 5)] ''name'' = Some JNull"
    by simp
  note t = nameless_client_written_under_primary_name [OF b1 c nn, unfolded p]
  have m: "map_of [(''age'', JInt 5)] ''age'' = Some (JInt 5) \<and> JInt 5 \<noteq> JNull \<and>
      ''age'' \<noteq> ''name'' \<and> ''age'' \<noteq> ''source_document'' \<and>
      undisputed ''letter1'' nameless (JStr ''Alice'') ''age'' (JInt 5)"
    using u by simp
  from t have all: "\<forall>k x. map_of [(''age'', JInt 5)] k = Some x \<and> x \<noteq> JNull \<and> k \<noteq> ''name'' \<and>
       k \<noteq> ''source_document'' \<and> undisputed ''letter1'' nameless (JStr ''Alice'') k x \<longrightarrow>
         map_of (client_props ''letter1'' (JStr ''Alice'') (AList.clearjunk [(''age'', JInt 5)])) k = Some x \<and>
         carries k x (JStr ''Alice'') ?g1"
    by (elim conjE)
  from all m have "carries ''age'' (JInt 5) (JStr ''Alice'') ?g1" by blast
  with t c p u show ?thesis by blast
qed

text \<open>
  C5 as stated fails: the second client of the record has no name and the first is named
  Alice; the call writes the second client onto the node of Alice, and no Client node has
  the placeholder name.
\<close>

theorem nameless_client_placeholder_counterexample:
  "JObj [(''age'', JInt 5)] \<in> set (record_clients nameless) \<and>
   build_graph_from_entities (\<lambda>v. []) nameless ''letter1'' empty_graph =
     Inr (empty_graph\<lparr>nodes :=
           [Node ''Client'' [(''name'', JStr ''Alice''), (''source_document'', JStr ''letter1''),
                             (''age'', JInt 5)]]\<rparr>) \<and>
   clients_named (JStr ''Unknown_letter1'')
     (final (build_graph_from_entities (\<lambda>v. []) nameless ''letter1'' empty_graph)) = []"
  by code_simp

subsection \<open>Decimal numbers\<close>





subsection \<open>Nodes of one label\<close>





subsection \<open>A node hung on a client\<close>




subsection \<open>The dependants and the properties of a record\<close>






















end
